theory Spec2Isabelle
  imports Complex_Main "HOL-Library.Word" "HOL-Library.AList" "HOL-Library.Log_Nat"
begin

unbundle bit_operations_syntax

section \<open>The quiz bot: data model\<close>

text \<open>
  The repository holds two variants of the same bot.  \<^verbatim>\<open>main.go\<close> keeps the solved flags in
  a PostgreSQL table \<^verbatim>\<open>user_progress\<close> and uses the in-memory \<^verbatim>\<open>progressCache\<close> as a cache in
  front of it (the reconciled mode of the specification).  The second file has no database:
  \<^verbatim>\<open>progressCache\<close> is the only record of progress (the cache-only mode).  The functions of
  the second file carry the suffix \<open>_mem\<close> here; everything without a suffix is \<^verbatim>\<open>main.go\<close>,
  or is textually the same in both files.

  \<^verbatim>\<open>processUpdates\<close> takes the updates from one channel and calls the handlers one after the
  other, so a run of the program is a sequence of handler calls on one state.

  User and chat identifiers are \<^verbatim>\<open>int64\<close>; task identifiers are Go \<^verbatim>\<open>int\<close>, taken at its
  64-bit width.  Go strings are byte sequences, and so is \<^typ>\<open>string\<close>: the Russian texts
  of the source are written down as their UTF-8 bytes.
\<close>

type_synonym userID = "64 word"
type_synonym taskID = "64 word"

text \<open>The struct \<^verbatim>\<open>Task\<close>.\<close>

record Task =
  ID :: taskID
  Text :: string
  Answer :: string
  Options :: "string list"

text \<open>
  A value of type \<^verbatim>\<open>map[int]bool\<close> is a reference to a mutable table.  The table is an
  association list with one entry per key (\<^verbatim>\<open>m[k] = v\<close> is \<^const>\<open>AList.update\<close>, \<^verbatim>\<open>m[k]\<close> is
  \<^const>\<open>map_of\<close>); the order of the list stands for the unspecified iteration order of Go.
  The reference is an address into \<open>heap\<close>, so that two holders of the same map see each
  other's writes, as they do in Go.
\<close>

type_synonym progress = "(taskID \<times> bool) list"
type_synonym ref = nat

text \<open>
  The package-level variable \<^verbatim>\<open>progressCache\<close> (a \<^verbatim>\<open>sync.Map\<close> from user to map reference)
  together with the maps it can refer to.  \<open>nextRef\<close> is the next unused address.
\<close>

record cache_state =
  progressCache :: "userID \<rightharpoonup> ref"
  heap :: "ref \<Rightarrow> progress"
  nextRef :: ref

text \<open>
  \<^verbatim>\<open>main.go\<close> adds the table created by \<^verbatim>\<open>initDB\<close>:
  \<^verbatim>\<open>user_progress (user_id, task_id, solved, PRIMARY KEY (user_id, task_id))\<close>.
\<close>

type_synonym table = "((userID \<times> taskID) \<times> bool) list"

record bot_state = cache_state +
  user_progress :: table

text \<open>
  What the database does with a statement is an input of the model.  The \<^verbatim>\<open>INSERT\<close> of
  \<^verbatim>\<open>saveUserProgress\<close> either is carried out or fails (connection lost, the 3 s deadline of
  the context passed); a failed \<^verbatim>\<open>INSERT\<close> leaves the table as it was.
\<close>

datatype store_outcome = StoreOk | StoreFail

text \<open>
  The \<^verbatim>\<open>SELECT\<close> of \<^verbatim>\<open>getUserProgress\<close> has three outcomes.  \<open>ReadOk\<close>: every selected row is
  delivered.  \<open>ReadFail\<close>: \<^verbatim>\<open>db.QueryContext\<close> or a \<^verbatim>\<open>rows.Scan\<close> returns an error.  \<open>ReadCut n\<close>:
  \<^verbatim>\<open>rows.Next()\<close> returns \<^verbatim>\<open>false\<close> after at most \<open>n\<close> rows, because the connection broke or the
  deadline passed during the iteration; the error is then held by \<^verbatim>\<open>rows.Err()\<close>, which the
  source never calls, so the loop ends as it does after the last row.
\<close>

datatype read_outcome = ReadOk | ReadFail | ReadCut nat

datatype error = StoreUnavailable | ErrSyntax | ErrRange

text \<open>What the bot sends to Telegram.  Log lines are not modelled.\<close>

datatype outbound =
    SendMessage userID string
  | SendKeyboard userID string "(string \<times> string) list"
  | AnswerCallback string string

text \<open>The fields of \<^verbatim>\<open>tgbotapi.CallbackQuery\<close> that \<^verbatim>\<open>handleCallbackQuery\<close> reads.\<close>

record CallbackQuery =
  QueryID :: string
  FromID :: userID
  Data :: string

section \<open>Texts\<close>

text \<open>
  Each constant is the UTF-8 encoding of one string literal of the source (an English gloss
  in brackets):
  \<^item> \<open>task1_text\<close> to \<open>task5_text\<close>: the \<^verbatim>\<open>Text\<close> fields of the five tasks of \<^verbatim>\<open>getTasks\<close>;
    \<open>opt_error\<close>: the fourth option of task 5 [error];
  \<^item> \<open>choose_suffix\<close>: what \<^verbatim>\<open>sendTask\<close> appends to the task text [two line feeds, choose the
    right answer:];
  \<^item> \<open>msg_all_solved\<close>: sent by \<^verbatim>\<open>handleTaskCommand\<close> when \<^verbatim>\<open>getNextTask\<close> returns \<^verbatim>\<open>nil\<close>
    [congratulations, you have solved all tasks];
  \<^item> \<open>msg_unknown_command\<close>: the default branch of \<^verbatim>\<open>handleCommand\<close> [unknown command];
  \<^item> \<open>msg_welcome\<close>: the text of \<^verbatim>\<open>sendWelcome\<close>;
  \<^item> \<open>msg_correct\<close>, \<open>msg_incorrect\<close>: the two callback replies of \<^verbatim>\<open>handleCallbackQuery\<close>
    [right] and [wrong, try again];
  \<^item> \<open>msg_all_available_solved\<close>: sent by \<^verbatim>\<open>handleCallbackQuery\<close> when no task is left
    [you have solved all available tasks];
  \<^item> \<open>msg_progress_error\<close>: sent by \<^verbatim>\<open>showProgress\<close> when the progress cannot be read
    [error while getting the progress];
  \<^item> \<open>progress_head\<close>, \<open>progress_mid\<close>: the format string of \<^verbatim>\<open>showProgress\<close> before the first
    \<^verbatim>\<open>%d\<close> [your progress, tasks solved:] and between the second \<^verbatim>\<open>%d\<close> and \<^verbatim>\<open>%.1f\<close> [line feed,
    progress:].
\<close>

definition task1_text :: string where
  "task1_text =
     [CHR 0xD0, CHR 0x9A, CHR 0xD0, CHR 0xB0, CHR 0xD0, CHR 0xBA, CHR 0xD0, CHR 0xBE,
     CHR 0xD0, CHR 0xB9] @ '' '' @ [CHR 0xD0, CHR 0xBE, CHR 0xD0, CHR 0xBF, CHR 0xD0,
     CHR 0xB5, CHR 0xD1, CHR 0x80, CHR 0xD0, CHR 0xB0, CHR 0xD1, CHR 0x82, CHR 0xD0,
     CHR 0xBE, CHR 0xD1, CHR 0x80] @ '' '' @ [CHR 0xD0, CHR 0xB8, CHR 0xD1, CHR 0x81,
     CHR 0xD0, CHR 0xBF, CHR 0xD0, CHR 0xBE, CHR 0xD0, CHR 0xBB, CHR 0xD1, CHR 0x8C,
     CHR 0xD0, CHR 0xB7, CHR 0xD1, CHR 0x83, CHR 0xD0, CHR 0xB5, CHR 0xD1, CHR 0x82,
     CHR 0xD1, CHR 0x81, CHR 0xD1, CHR 0x8F] @ '' '' @ [CHR 0xD0, CHR 0xB4, CHR 0xD0,
     CHR 0xBB, CHR 0xD1, CHR 0x8F] @ '' '' @ [CHR 0xD0, CHR 0xBE, CHR 0xD0, CHR 0xB1,
     CHR 0xD1, CHR 0x8A, CHR 0xD1, CHR 0x8F, CHR 0xD0, CHR 0xB2, CHR 0xD0, CHR 0xBB,
     CHR 0xD0, CHR 0xB5, CHR 0xD0, CHR 0xBD, CHR 0xD0, CHR 0xB8, CHR 0xD1, CHR 0x8F] @
     '' '' @ [CHR 0xD0, CHR 0xBF, CHR 0xD0, CHR 0xB5, CHR 0xD1, CHR 0x80, CHR 0xD0,
     CHR 0xB5, CHR 0xD0, CHR 0xBC, CHR 0xD0, CHR 0xB5, CHR 0xD0, CHR 0xBD, CHR 0xD0,
     CHR 0xBD, CHR 0xD0, CHR 0xBE, CHR 0xD0, CHR 0xB9] @ '' '' @ [CHR 0xD0, CHR 0xB2] @
     '' Go?''"

definition task2_text :: string where
  "task2_text =
     [CHR 0xD0, CHR 0x9A, CHR 0xD0, CHR 0xB0, CHR 0xD0, CHR 0xBA, CHR 0xD0, CHR 0xBE,
     CHR 0xD0, CHR 0xB9] @ '' '' @ [CHR 0xD1, CHR 0x82, CHR 0xD0, CHR 0xB8, CHR 0xD0,
     CHR 0xBF] @ '' '' @ [CHR 0xD0, CHR 0xB4, CHR 0xD0, CHR 0xB0, CHR 0xD0, CHR 0xBD,
     CHR 0xD0, CHR 0xBD, CHR 0xD1, CHR 0x8B, CHR 0xD1, CHR 0x85] @ '' '' @ [CHR 0xD0,
     CHR 0xB8, CHR 0xD1, CHR 0x81, CHR 0xD0, CHR 0xBF, CHR 0xD0, CHR 0xBE, CHR 0xD0,
     CHR 0xBB, CHR 0xD1, CHR 0x8C, CHR 0xD0, CHR 0xB7, CHR 0xD1, CHR 0x83, CHR 0xD0,
     CHR 0xB5, CHR 0xD1, CHR 0x82, CHR 0xD1, CHR 0x81, CHR 0xD1, CHR 0x8F] @ '' '' @
     [CHR 0xD0, CHR 0xB4, CHR 0xD0, CHR 0xBB, CHR 0xD1, CHR 0x8F] @ '' '' @ [CHR 0xD1,
     CHR 0x86, CHR 0xD0, CHR 0xB5, CHR 0xD0, CHR 0xBB, CHR 0xD1, CHR 0x8B, CHR 0xD1,
     CHR 0x85] @ '' '' @ [CHR 0xD1, CHR 0x87, CHR 0xD0, CHR 0xB8, CHR 0xD1, CHR 0x81,
     CHR 0xD0, CHR 0xB5, CHR 0xD0, CHR 0xBB] @ '' '' @ [CHR 0xD0, CHR 0xB2] @ '' Go?''"

definition task3_text :: string where
  "task3_text =
     [CHR 0xD0, CHR 0x9A, CHR 0xD0, CHR 0xB0, CHR 0xD0, CHR 0xBA, CHR 0xD0, CHR 0xBE,
     CHR 0xD0, CHR 0xB9] @ '' '' @ [CHR 0xD1, CHR 0x82, CHR 0xD0, CHR 0xB8, CHR 0xD0,
     CHR 0xBF] @ '' '' @ [CHR 0xD0, CHR 0xB4, CHR 0xD0, CHR 0xB0, CHR 0xD0, CHR 0xBD,
     CHR 0xD0, CHR 0xBD, CHR 0xD1, CHR 0x8B, CHR 0xD1, CHR 0x85] @ '' '' @ [CHR 0xD0,
     CHR 0xB8, CHR 0xD1, CHR 0x81, CHR 0xD0, CHR 0xBF, CHR 0xD0, CHR 0xBE, CHR 0xD0,
     CHR 0xBB, CHR 0xD1, CHR 0x8C, CHR 0xD0, CHR 0xB7, CHR 0xD1, CHR 0x83, CHR 0xD0,
     CHR 0xB5, CHR 0xD1, CHR 0x82, CHR 0xD1, CHR 0x81, CHR 0xD1, CHR 0x8F] @ '' '' @
     [CHR 0xD0, CHR 0xB4, CHR 0xD0, CHR 0xBB, CHR 0xD1, CHR 0x8F] @ '' '' @ [CHR 0xD1,
     CHR 0x81, CHR 0xD1, CHR 0x82, CHR 0xD1, CHR 0x80, CHR 0xD0, CHR 0xBE, CHR 0xD0,
     CHR 0xBA] @ '' '' @ [CHR 0xD0, CHR 0xB2] @ '' Go?''"

definition task4_text :: string where
  "task4_text =
     [CHR 0xD0, CHR 0x9A, CHR 0xD0, CHR 0xB0, CHR 0xD0, CHR 0xBA, CHR 0xD0, CHR 0xB0,
     CHR 0xD1, CHR 0x8F] @ '' '' @ [CHR 0xD0, CHR 0xB4, CHR 0xD0, CHR 0xB8, CHR 0xD1,
     CHR 0x80, CHR 0xD0, CHR 0xB5, CHR 0xD0, CHR 0xBA, CHR 0xD1, CHR 0x82, CHR 0xD0,
     CHR 0xB8, CHR 0xD0, CHR 0xB2, CHR 0xD0, CHR 0xB0] @ '' '' @ [CHR 0xD0, CHR 0xB8,
     CHR 0xD1, CHR 0x81, CHR 0xD0, CHR 0xBF, CHR 0xD0, CHR 0xBE, CHR 0xD0, CHR 0xBB,
     CHR 0xD1, CHR 0x8C, CHR 0xD0, CHR 0xB7, CHR 0xD1, CHR 0x83, CHR 0xD0, CHR 0xB5,
     CHR 0xD1, CHR 0x82, CHR 0xD1, CHR 0x81, CHR 0xD1, CHR 0x8F] @ '' '' @ [CHR 0xD0,
     CHR 0xB4, CHR 0xD0, CHR 0xBB, CHR 0xD1, CHR 0x8F] @ '' '' @ [CHR 0xD0, CHR 0xB8,
     CHR 0xD0, CHR 0xBC, CHR 0xD0, CHR 0xBF, CHR 0xD0, CHR 0xBE, CHR 0xD1, CHR 0x80,
     CHR 0xD1, CHR 0x82, CHR 0xD0, CHR 0xB0] @ '' '' @ [CHR 0xD0, CHR 0xBF, CHR 0xD0,
     CHR 0xB0, CHR 0xD0, CHR 0xBA, CHR 0xD0, CHR 0xB5, CHR 0xD1, CHR 0x82, CHR 0xD0,
     CHR 0xBE, CHR 0xD0, CHR 0xB2] @ '' '' @ [CHR 0xD0, CHR 0xB2] @ '' Go?''"

definition task5_text :: string where
  "task5_text =
     [CHR 0xD0, CHR 0xA7, CHR 0xD1, CHR 0x82, CHR 0xD0, CHR 0xBE] @ '' '' @ [CHR 0xD0,
     CHR 0xB2, CHR 0xD1, CHR 0x8B, CHR 0xD0, CHR 0xB2, CHR 0xD0, CHR 0xBE, CHR 0xD0,
     CHR 0xB4, CHR 0xD0, CHR 0xB8, CHR 0xD1, CHR 0x82] @ '' '' @ [CHR 0xD0, CHR 0xBA,
     CHR 0xD0, CHR 0xBE, CHR 0xD0, CHR 0xBC, CHR 0xD0, CHR 0xB0, CHR 0xD0, CHR 0xBD,
     CHR 0xD0, CHR 0xB4, CHR 0xD0, CHR 0xB0] @ '' fmt.Println(1+1) '' @ [CHR 0xD0,
     CHR 0xB2] @ '' Go?''"

definition opt_error :: string where
  "opt_error =
     [CHR 0xD0, CHR 0x9E, CHR 0xD1, CHR 0x88, CHR 0xD0, CHR 0xB8, CHR 0xD0, CHR 0xB1,
     CHR 0xD0, CHR 0xBA, CHR 0xD0, CHR 0xB0]"

definition choose_suffix :: string where
  "choose_suffix =
     [CHR 0x0A, CHR 0x0A, CHR 0xD0, CHR 0x92, CHR 0xD1, CHR 0x8B, CHR 0xD0, CHR 0xB1,
     CHR 0xD0, CHR 0xB5, CHR 0xD1, CHR 0x80, CHR 0xD0, CHR 0xB8, CHR 0xD1, CHR 0x82,
     CHR 0xD0, CHR 0xB5] @ '' '' @ [CHR 0xD0, CHR 0xBF, CHR 0xD1, CHR 0x80, CHR 0xD0,
     CHR 0xB0, CHR 0xD0, CHR 0xB2, CHR 0xD0, CHR 0xB8, CHR 0xD0, CHR 0xBB, CHR 0xD1,
     CHR 0x8C, CHR 0xD0, CHR 0xBD, CHR 0xD1, CHR 0x8B, CHR 0xD0, CHR 0xB9] @ '' '' @
     [CHR 0xD0, CHR 0xBE, CHR 0xD1, CHR 0x82, CHR 0xD0, CHR 0xB2, CHR 0xD0, CHR 0xB5,
     CHR 0xD1, CHR 0x82] @ '':''"

definition msg_all_solved :: string where
  "msg_all_solved =
     [CHR 0xD0, CHR 0x9F, CHR 0xD0, CHR 0xBE, CHR 0xD0, CHR 0xB7, CHR 0xD0, CHR 0xB4,
     CHR 0xD1, CHR 0x80, CHR 0xD0, CHR 0xB0, CHR 0xD0, CHR 0xB2, CHR 0xD0, CHR 0xBB,
     CHR 0xD1, CHR 0x8F, CHR 0xD0, CHR 0xB5, CHR 0xD0, CHR 0xBC] @ ''! '' @ [CHR 0xD0,
     CHR 0x92, CHR 0xD1, CHR 0x8B] @ '' '' @ [CHR 0xD1, CHR 0x80, CHR 0xD0, CHR 0xB5,
     CHR 0xD1, CHR 0x88, CHR 0xD0, CHR 0xB8, CHR 0xD0, CHR 0xBB, CHR 0xD0, CHR 0xB8] @
     '' '' @ [CHR 0xD0, CHR 0xB2, CHR 0xD1, CHR 0x81, CHR 0xD0, CHR 0xB5] @ '' '' @
     [CHR 0xD0, CHR 0xB7, CHR 0xD0, CHR 0xB0, CHR 0xD0, CHR 0xB4, CHR 0xD0, CHR 0xB0,
     CHR 0xD1, CHR 0x87, CHR 0xD0, CHR 0xB8] @ '' '' @ [CHR 0xF0, CHR 0x9F, CHR 0x8E,
     CHR 0x89]"

definition msg_unknown_command :: string where
  "msg_unknown_command =
     [CHR 0xD0, CHR 0x9D, CHR 0xD0, CHR 0xB5, CHR 0xD0, CHR 0xB8, CHR 0xD0, CHR 0xB7,
     CHR 0xD0, CHR 0xB2, CHR 0xD0, CHR 0xB5, CHR 0xD1, CHR 0x81, CHR 0xD1, CHR 0x82,
     CHR 0xD0, CHR 0xBD, CHR 0xD0, CHR 0xB0, CHR 0xD1, CHR 0x8F] @ '' '' @ [CHR 0xD0,
     CHR 0xBA, CHR 0xD0, CHR 0xBE, CHR 0xD0, CHR 0xBC, CHR 0xD0, CHR 0xB0, CHR 0xD0,
     CHR 0xBD, CHR 0xD0, CHR 0xB4, CHR 0xD0, CHR 0xB0] @ '' '' @ [CHR 0xF0, CHR 0x9F,
     CHR 0xA4, CHR 0xB7]"

definition msg_welcome :: string where
  "msg_welcome =
     [CHR 0xD0, CHR 0x94, CHR 0xD0, CHR 0xBE, CHR 0xD0, CHR 0xB1, CHR 0xD1, CHR 0x80,
     CHR 0xD0, CHR 0xBE] @ '' '' @ [CHR 0xD0, CHR 0xBF, CHR 0xD0, CHR 0xBE, CHR 0xD0,
     CHR 0xB6, CHR 0xD0, CHR 0xB0, CHR 0xD0, CHR 0xBB, CHR 0xD0, CHR 0xBE, CHR 0xD0,
     CHR 0xB2, CHR 0xD0, CHR 0xB0, CHR 0xD1, CHR 0x82, CHR 0xD1, CHR 0x8C] @ '' '' @
     [CHR 0xD0, CHR 0xB2] @ '' '' @ [CHR 0xD0, CHR 0xB1, CHR 0xD0, CHR 0xBE, CHR 0xD1,
     CHR 0x82, CHR 0xD0, CHR 0xB0] @ '' '' @ [CHR 0xD0, CHR 0xB4, CHR 0xD0, CHR 0xBB,
     CHR 0xD1, CHR 0x8F] @ '' '' @ [CHR 0xD0, CHR 0xB8, CHR 0xD0, CHR 0xB7, CHR 0xD1,
     CHR 0x83, CHR 0xD1, CHR 0x87, CHR 0xD0, CHR 0xB5, CHR 0xD0, CHR 0xBD, CHR 0xD0,
     CHR 0xB8, CHR 0xD1, CHR 0x8F] @ '' Go! '' @ [CHR 0xF0, CHR 0x9F, CHR 0x9A, CHR 0x80,
     CHR 0x0A, CHR 0x0A, CHR 0xD0, CHR 0x98, CHR 0xD1, CHR 0x81, CHR 0xD0, CHR 0xBF,
     CHR 0xD0, CHR 0xBE, CHR 0xD0, CHR 0xBB, CHR 0xD1, CHR 0x8C, CHR 0xD0, CHR 0xB7,
     CHR 0xD1, CHR 0x83, CHR 0xD0, CHR 0xB9, CHR 0xD1, CHR 0x82, CHR 0xD0, CHR 0xB5] @
     '' '' @ [CHR 0xD0, CHR 0xBA, CHR 0xD0, CHR 0xBE, CHR 0xD0, CHR 0xBC, CHR 0xD0,
     CHR 0xB0, CHR 0xD0, CHR 0xBD, CHR 0xD0, CHR 0xB4, CHR 0xD1, CHR 0x8B] @ '':'' @
     [CHR 0x0A] @ ''/task - '' @ [CHR 0xD0, CHR 0x9F, CHR 0xD0, CHR 0xBE, CHR 0xD0,
     CHR 0xBB, CHR 0xD1, CHR 0x83, CHR 0xD1, CHR 0x87, CHR 0xD0, CHR 0xB8, CHR 0xD1,
     CHR 0x82, CHR 0xD1, CHR 0x8C] @ '' '' @ [CHR 0xD0, CHR 0xBD, CHR 0xD0, CHR 0xBE,
     CHR 0xD0, CHR 0xB2, CHR 0xD1, CHR 0x83, CHR 0xD1, CHR 0x8E] @ '' '' @ [CHR 0xD0,
     CHR 0xB7, CHR 0xD0, CHR 0xB0, CHR 0xD0, CHR 0xB4, CHR 0xD0, CHR 0xB0, CHR 0xD1,
     CHR 0x87, CHR 0xD1, CHR 0x83, CHR 0x0A] @ ''/progress - '' @ [CHR 0xD0, CHR 0x9F,
     CHR 0xD0, CHR 0xBE, CHR 0xD0, CHR 0xBA, CHR 0xD0, CHR 0xB0, CHR 0xD0, CHR 0xB7,
     CHR 0xD0, CHR 0xB0, CHR 0xD1, CHR 0x82, CHR 0xD1, CHR 0x8C] @ '' '' @ [CHR 0xD0,
     CHR 0xBF, CHR 0xD1, CHR 0x80, CHR 0xD0, CHR 0xBE, CHR 0xD0, CHR 0xB3, CHR 0xD1,
     CHR 0x80, CHR 0xD0, CHR 0xB5, CHR 0xD1, CHR 0x81, CHR 0xD1, CHR 0x81]"

definition msg_correct :: string where
  "msg_correct =
     [CHR 0xD0, CHR 0x9F, CHR 0xD1, CHR 0x80, CHR 0xD0, CHR 0xB0, CHR 0xD0, CHR 0xB2,
     CHR 0xD0, CHR 0xB8, CHR 0xD0, CHR 0xBB, CHR 0xD1, CHR 0x8C, CHR 0xD0, CHR 0xBD,
     CHR 0xD0, CHR 0xBE] @ ''! '' @ [CHR 0xE2, CHR 0x9C, CHR 0x85]"

definition msg_incorrect :: string where
  "msg_incorrect =
     [CHR 0xD0, CHR 0x9D, CHR 0xD0, CHR 0xB5, CHR 0xD0, CHR 0xB2, CHR 0xD0, CHR 0xB5,
     CHR 0xD1, CHR 0x80, CHR 0xD0, CHR 0xBD, CHR 0xD0, CHR 0xBE] @ '' '' @ [CHR 0xE2,
     CHR 0x9D, CHR 0x8C] @ '' '' @ [CHR 0xD0, CHR 0x9F, CHR 0xD0, CHR 0xBE, CHR 0xD0,
     CHR 0xBF, CHR 0xD1, CHR 0x80, CHR 0xD0, CHR 0xBE, CHR 0xD0, CHR 0xB1, CHR 0xD1,
     CHR 0x83, CHR 0xD0, CHR 0xB9, CHR 0xD1, CHR 0x82, CHR 0xD0, CHR 0xB5] @ '' '' @
     [CHR 0xD0, CHR 0xB5, CHR 0xD1, CHR 0x89, CHR 0xD0, CHR 0xB5] @ '' '' @ [CHR 0xD1,
     CHR 0x80, CHR 0xD0, CHR 0xB0, CHR 0xD0, CHR 0xB7] @ ''!''"

definition msg_all_available_solved :: string where
  "msg_all_available_solved =
     [CHR 0xF0, CHR 0x9F, CHR 0x8E, CHR 0x89] @ '' '' @ [CHR 0xD0, CHR 0x92, CHR 0xD1,
     CHR 0x8B] @ '' '' @ [CHR 0xD1, CHR 0x80, CHR 0xD0, CHR 0xB5, CHR 0xD1, CHR 0x88,
     CHR 0xD0, CHR 0xB8, CHR 0xD0, CHR 0xBB, CHR 0xD0, CHR 0xB8] @ '' '' @ [CHR 0xD0,
     CHR 0xB2, CHR 0xD1, CHR 0x81, CHR 0xD0, CHR 0xB5] @ '' '' @ [CHR 0xD0, CHR 0xB4,
     CHR 0xD0, CHR 0xBE, CHR 0xD1, CHR 0x81, CHR 0xD1, CHR 0x82, CHR 0xD1, CHR 0x83,
     CHR 0xD0, CHR 0xBF, CHR 0xD0, CHR 0xBD, CHR 0xD1, CHR 0x8B, CHR 0xD0, CHR 0xB5] @
     '' '' @ [CHR 0xD0, CHR 0xB7, CHR 0xD0, CHR 0xB0, CHR 0xD0, CHR 0xB4, CHR 0xD0,
     CHR 0xB0, CHR 0xD1, CHR 0x87, CHR 0xD0, CHR 0xB8] @ ''!''"

definition msg_progress_error :: string where
  "msg_progress_error =
     [CHR 0xD0, CHR 0x9E, CHR 0xD1, CHR 0x88, CHR 0xD0, CHR 0xB8, CHR 0xD0, CHR 0xB1,
     CHR 0xD0, CHR 0xBA, CHR 0xD0, CHR 0xB0] @ '' '' @ [CHR 0xD0, CHR 0xBF, CHR 0xD0,
     CHR 0xBE, CHR 0xD0, CHR 0xBB, CHR 0xD1, CHR 0x83, CHR 0xD1, CHR 0x87, CHR 0xD0,
     CHR 0xB5, CHR 0xD0, CHR 0xBD, CHR 0xD0, CHR 0xB8, CHR 0xD1, CHR 0x8F] @ '' '' @
     [CHR 0xD0, CHR 0xBF, CHR 0xD1, CHR 0x80, CHR 0xD0, CHR 0xBE, CHR 0xD0, CHR 0xB3,
     CHR 0xD1, CHR 0x80, CHR 0xD0, CHR 0xB5, CHR 0xD1, CHR 0x81, CHR 0xD1, CHR 0x81,
     CHR 0xD0, CHR 0xB0] @ '' '' @ [CHR 0xF0, CHR 0x9F, CHR 0x98, CHR 0x95]"

definition progress_head :: string where
  "progress_head =
     [CHR 0xD0, CHR 0x92, CHR 0xD0, CHR 0xB0, CHR 0xD1, CHR 0x88] @ '' '' @ [CHR 0xD0,
     CHR 0xBF, CHR 0xD1, CHR 0x80, CHR 0xD0, CHR 0xBE, CHR 0xD0, CHR 0xB3, CHR 0xD1,
     CHR 0x80, CHR 0xD0, CHR 0xB5, CHR 0xD1, CHR 0x81, CHR 0xD1, CHR 0x81] @ '': '' @
     [CHR 0xF0, CHR 0x9F, CHR 0x93, CHR 0x8A, CHR 0x0A, CHR 0x0A, CHR 0xD0, CHR 0xA0,
     CHR 0xD0, CHR 0xB5, CHR 0xD1, CHR 0x88, CHR 0xD0, CHR 0xB5, CHR 0xD0, CHR 0xBD,
     CHR 0xD0, CHR 0xBE] @ '' '' @ [CHR 0xD0, CHR 0xB7, CHR 0xD0, CHR 0xB0, CHR 0xD0,
     CHR 0xB4, CHR 0xD0, CHR 0xB0, CHR 0xD1, CHR 0x87] @ '': ''"

definition progress_mid :: string where
  "progress_mid =
     [CHR 0x0A, CHR 0xD0, CHR 0x9F, CHR 0xD1, CHR 0x80, CHR 0xD0, CHR 0xBE, CHR 0xD0,
     CHR 0xB3, CHR 0xD1, CHR 0x80, CHR 0xD0, CHR 0xB5, CHR 0xD1, CHR 0x81, CHR 0xD1,
     CHR 0x81] @ '': ''"

section \<open>The task catalog\<close>

definition getTasks :: "Task list" where
  "getTasks =
     [\<lparr>ID = 1, Text = task1_text, Answer = ''var'',
        Options = [''let'', ''const'', ''var'', ''define'']\<rparr>,
      \<lparr>ID = 2, Text = task2_text, Answer = ''int'',
        Options = [''integer'', ''float'', ''int'', ''number'']\<rparr>,
      \<lparr>ID = 3, Text = task3_text, Answer = ''string'',
        Options = [''char'', ''string'', ''text'', ''varchar'']\<rparr>,
      \<lparr>ID = 4, Text = task4_text, Answer = ''import'',
        Options = [''include'', ''import'', ''use'', ''require'']\<rparr>,
      \<lparr>ID = 5, Text = task5_text, Answer = ''2'',
        Options = [''1'', ''2'', ''3'', opt_error]\<rparr>]"

definition findTask :: "taskID \<Rightarrow> Task option" where
  "findTask taskID = List.find (\<lambda>t. ID t = taskID) getTasks"

section \<open>Library functions of Go used by the handlers\<close>

subsection \<open>Decimal integers: the verb \<^verbatim>\<open>%d\<close> and \<^verbatim>\<open>strconv.Atoi\<close>\<close>

definition digit_char :: "nat \<Rightarrow> char" where
  "digit_char d = char_of (48 + d)"

fun digits :: "nat \<Rightarrow> string" where
  "digits n = (if n < 10 then [digit_char n] else digits (n div 10) @ [digit_char (n mod 10)])"

declare digits.simps [simp del]

definition fmt_d :: "int \<Rightarrow> string" where
  "fmt_d i = (if i < 0 then CHR ''-'' # digits (nat (- i)) else digits (nat i))"

definition is_digit :: "char \<Rightarrow> bool" where
  "is_digit c = (48 \<le> (of_char c :: nat) \<and> (of_char c :: nat) \<le> 57)"

definition digit_val :: "char \<Rightarrow> nat" where
  "digit_val c = of_char c - 48"

text \<open>The number that a string of digits denotes, continuing from \<open>acc\<close>.\<close>

fun digits_value :: "nat \<Rightarrow> string \<Rightarrow> nat" where
  "digits_value acc [] = acc"
| "digits_value acc (c # cs) = digits_value (acc * 10 + digit_val c) cs"

text \<open>
  \<^verbatim>\<open>strconv.Atoi\<close>: an optional sign, then one or more decimal digits and nothing else.  The
  digits are read from the left, as the loop of \<^verbatim>\<open>strconv.ParseUint\<close> reads them: a byte that
  is no digit is a syntax error, a value that leaves the range of \<^verbatim>\<open>uint64\<close> is a range
  error, whichever comes first.  The signed value is then checked against the range of
  \<^verbatim>\<open>int\<close>.
\<close>

fun parse_digits :: "nat \<Rightarrow> string \<Rightarrow> error + nat" where
  "parse_digits n [] = Inr n"
| "parse_digits n (c # cs) =
     (if \<not> is_digit c then Inl ErrSyntax
      else if (2 ^ 64 - 1) div 10 + 1 \<le> n then Inl ErrRange
      else let n1 = n * 10 + digit_val c
           in if 2 ^ 64 - 1 < n1 then Inl ErrRange else parse_digits n1 cs)"

definition Atoi :: "string \<Rightarrow> error + taskID" where
  "Atoi s =
     (let (neg, ds) =
            (case s of
               [] \<Rightarrow> (False, s)
             | c # cs \<Rightarrow>
                 if c = CHR ''-'' then (True, cs)
                 else if c = CHR ''+'' then (False, cs)
                 else (False, s))
      in if ds = [] then Inl ErrSyntax
         else (case parse_digits 0 ds of
                 Inl err \<Rightarrow> Inl err
               | Inr un \<Rightarrow>
                   if \<not> neg \<and> 2 ^ 63 \<le> un then Inl ErrRange
                   else if neg \<and> 2 ^ 63 < un then Inl ErrRange
                   else Inr (word_of_int (if neg then - int un else int un))))"

subsection \<open>\<^verbatim>\<open>strings.SplitN(s, sep, 2)\<close> for a one-byte separator\<close>

fun cut :: "char \<Rightarrow> string \<Rightarrow> (string \<times> string) option" where
  "cut sep [] = None"
| "cut sep (c # cs) =
     (if c = sep then Some ([], cs)
      else (case cut sep cs of None \<Rightarrow> None | Some (a, b) \<Rightarrow> Some (c # a, b)))"

definition SplitN2 :: "string \<Rightarrow> char \<Rightarrow> string list" where
  "SplitN2 s sep = (case cut sep s of None \<Rightarrow> [s] | Some (a, b) \<Rightarrow> [a, b])"

subsection \<open>\<^verbatim>\<open>float64\<close> arithmetic and the verb \<^verbatim>\<open>%.1f\<close>\<close>

text \<open>
  A finite \<^verbatim>\<open>float64\<close> is represented by the rational number it denotes.  An operation
  returns the exact result rounded to 53 significant bits, ties to the even mantissa
  (IEEE 754 binary64, the default rounding mode).  Overflow and subnormal numbers are not
  modelled: \<open>round64\<close> is the machine's rounding for \<open>2\<^sup>-\<^sup>1\<^sup>0\<^sup>2\<^sup>2 \<le> \<bar>x\<bar> < 2\<^sup>1\<^sup>0\<^sup>2\<^sup>4\<close>, and
  every number met in \<^verbatim>\<open>showProgress\<close> is either 0 or lies between \<open>1/5\<close> and \<open>2\<^sup>7\<^sup>0\<close>.
\<close>

definition round_half_even :: "rat \<Rightarrow> int" where
  "round_half_even q =
     (let f = \<lfloor>q\<rfloor>; r = q - of_int f
      in if r < 1 / 2 then f
         else if 1 / 2 < r then f + 1
         else if even f then f else f + 1)"

text \<open>The binary exponent \<open>\<lfloor>log\<^sub>2 x\<rfloor>\<close> of a positive rational.\<close>

definition float_exp :: "rat \<Rightarrow> int" where
  "float_exp x =
     (let (p, q) = quotient_of x; e = bitlen p - bitlen q
      in if 2 powi e \<le> x then e else e - 1)"

definition round64 :: "rat \<Rightarrow> rat" where
  "round64 x =
     (if x = 0 then 0
      else let e = float_exp \<bar>x\<bar>;
               m = round_half_even (\<bar>x\<bar> * 2 powi (52 - e))
           in sgn x * of_int m * 2 powi (e - 52))"

definition float64_of_int :: "int \<Rightarrow> rat" where
  "float64_of_int i = round64 (of_int i)"

definition f64_div :: "rat \<Rightarrow> rat \<Rightarrow> rat" where
  "f64_div a b = round64 (a / b)"

definition f64_mul :: "rat \<Rightarrow> rat \<Rightarrow> rat" where
  "f64_mul a b = round64 (a * b)"

text \<open>
  \<^verbatim>\<open>%.1f\<close> prints the decimal expansion of the exact value, rounded to one digit after the
  point, ties to even.
\<close>

definition fmt_f1 :: "rat \<Rightarrow> string" where
  "fmt_f1 x =
     (let n = round_half_even (\<bar>x\<bar> * 10);
          body = digits (nat (n div 10)) @ ''.'' @ digits (nat (n mod 10))
      in if x < 0 then CHR ''-'' # body else body)"

section \<open>The progress coordinator of \<^verbatim>\<open>main.go\<close>\<close>

text \<open>
  \<^verbatim>\<open>SELECT task_id, solved FROM user_progress WHERE user_id = $1\<close>, and the loop
  \<^verbatim>\<open>for rows.Next() { ...; progress[taskID] = solved }\<close> over its result.
\<close>

definition select_rows :: "userID \<Rightarrow> table \<Rightarrow> (taskID \<times> bool) list" where
  "select_rows userID rows =
     map (\<lambda>((u, t), solved). (t, solved)) (filter (\<lambda>((u, t), solved). u = userID) rows)"

fun scan_rows :: "(taskID \<times> bool) list \<Rightarrow> progress \<Rightarrow> progress" where
  "scan_rows [] progress = progress"
| "scan_rows ((taskID, solved) # rows) progress =
     scan_rows rows (AList.update taskID solved progress)"

text \<open>The rows that the loop receives, or \<open>None\<close> when the read returns an error.\<close>

definition delivered :: "read_outcome \<Rightarrow> 'a list \<Rightarrow> 'a list option" where
  "delivered oc rows =
     (case oc of
        ReadOk \<Rightarrow> Some rows
      | ReadFail \<Rightarrow> None
      | ReadCut n \<Rightarrow> Some (take n rows))"

text \<open>
  \<^verbatim>\<open>getUserProgress\<close>.  A cached map is returned as it is: the caller receives the reference
  held by the cache, not a copy.  Otherwise the table is read; when the query or a
  \<^verbatim>\<open>rows.Scan\<close> fails the function returns \<^verbatim>\<open>(nil, err)\<close> and has stored nothing.  When the loop
  ends, after the last row or after \<^verbatim>\<open>rows.Next()\<close> gave up, the map filled so far is stored in
  the cache and returned with a \<^verbatim>\<open>nil\<close> error.  The new map is written down with its final
  content: no one else holds it while the loop fills it.
\<close>

definition getUserProgress ::
    "read_outcome \<Rightarrow> userID \<Rightarrow> bot_state \<Rightarrow> (error + ref) \<times> bot_state" where
  "getUserProgress oc userID s =
     (case progressCache s userID of
        Some cached \<Rightarrow> (Inr cached, s)
      | None \<Rightarrow>
          (case delivered oc (select_rows userID (user_progress s)) of
             None \<Rightarrow> (Inl StoreUnavailable, s)
           | Some rows \<Rightarrow>
               let progress = scan_rows rows [];
                   r = nextRef s
               in (Inr r,
                   s\<lparr>progressCache := (progressCache s)(userID \<mapsto> r),
                     heap := (heap s)(r := progress),
                     nextRef := Suc r\<rparr>)))"

text \<open>
  \<^verbatim>\<open>INSERT ... ON CONFLICT (user_id, task_id) DO UPDATE SET solved = $3\<close>: the row of the key
  is replaced where it exists and added where it does not.
\<close>

definition exec_upsert ::
    "store_outcome \<Rightarrow> userID \<Rightarrow> taskID \<Rightarrow> bool \<Rightarrow> table \<Rightarrow> error option \<times> table" where
  "exec_upsert oc userID taskID solved rows =
     (case oc of
        StoreOk \<Rightarrow> (None, AList.update (userID, taskID) solved rows)
      | StoreFail \<Rightarrow> (Some StoreUnavailable, rows))"

text \<open>
  \<^verbatim>\<open>saveUserProgress\<close>: the statement, then \<^verbatim>\<open>progressCache.Delete(userID)\<close> whatever the
  statement returned, then \<^verbatim>\<open>return err\<close>.
\<close>

definition saveUserProgress ::
    "store_outcome \<Rightarrow> userID \<Rightarrow> taskID \<Rightarrow> bool \<Rightarrow> bot_state \<Rightarrow> error option \<times> bot_state" where
  "saveUserProgress oc userID taskID solved s =
     (let (err, rows) = exec_upsert oc userID taskID solved (user_progress s)
      in (err, s\<lparr>progressCache := (progressCache s)(userID := None), user_progress := rows\<rparr>))"

section \<open>The progress coordinator of the file without a database\<close>

text \<open>
  \<^verbatim>\<open>getUserProgress\<close> returns the cached map, or stores a new empty map and returns it.  Its
  error result is \<^verbatim>\<open>nil\<close> on both paths and is left out.
\<close>

definition getUserProgress_mem ::
    "userID \<Rightarrow> 'a cache_state_scheme \<Rightarrow> ref \<times> 'a cache_state_scheme" where
  "getUserProgress_mem userID s =
     (case progressCache s userID of
        Some cached \<Rightarrow> (cached, s)
      | None \<Rightarrow>
          let r = nextRef s
          in (r, s\<lparr>progressCache := (progressCache s)(userID \<mapsto> r),
                   heap := (heap s)(r := []),
                   nextRef := Suc r\<rparr>))"

text \<open>
  \<^verbatim>\<open>saveUserProgress\<close>: \<^verbatim>\<open>progress[taskID] = solved\<close> writes into the map that the cache holds,
  and \<^verbatim>\<open>progressCache.Store\<close> stores the same reference again.  It always returns \<^verbatim>\<open>nil\<close>.
\<close>

definition saveUserProgress_mem ::
    "userID \<Rightarrow> taskID \<Rightarrow> bool \<Rightarrow> 'a cache_state_scheme \<Rightarrow> error option \<times> 'a cache_state_scheme" where
  "saveUserProgress_mem userID taskID solved s =
     (let (progress, s1) = getUserProgress_mem userID s;
          s2 = s1\<lparr>heap := (heap s1)(progress := AList.update taskID solved (heap s1 progress))\<rparr>
      in (None, s2\<lparr>progressCache := (progressCache s2)(userID \<mapsto> progress)\<rparr>))"

section \<open>Dispatch and the handlers\<close>

text \<open>
  The loop of \<^verbatim>\<open>getNextTask\<close>:
  \<^verbatim>\<open>if solved, exists := progress[tasks[i].ID]; !exists || !solved { return &tasks[i] }\<close>.
\<close>

fun firstUnsolved :: "Task list \<Rightarrow> progress \<Rightarrow> Task option" where
  "firstUnsolved [] progress = None"
| "firstUnsolved (t # tasks) progress =
     (case map_of progress (ID t) of
        None \<Rightarrow> Some t
      | Some solved \<Rightarrow> if \<not> solved then Some t else firstUnsolved tasks progress)"

text \<open>\<^verbatim>\<open>getNextTask\<close>: \<^verbatim>\<open>nil\<close> when reading the progress failed, else the result of the loop.\<close>

definition getNextTask :: "read_outcome \<Rightarrow> userID \<Rightarrow> bot_state \<Rightarrow> Task option \<times> bot_state" where
  "getNextTask oc userID s =
     (case getUserProgress oc userID s of
        (Inl err, s') \<Rightarrow> (None, s')
      | (Inr progress, s') \<Rightarrow> (firstUnsolved getTasks (heap s' progress), s'))"

definition getNextTask_mem ::
    "userID \<Rightarrow> 'a cache_state_scheme \<Rightarrow> Task option \<times> 'a cache_state_scheme" where
  "getNextTask_mem userID s =
     (let (progress, s') = getUserProgress_mem userID s
      in (firstUnsolved getTasks (heap s' progress), s'))"

text \<open>\<^verbatim>\<open>sendTask\<close>: one button per option, its callback data \<^verbatim>\<open>Sprintf("%d:%s", task.ID, option)\<close>.\<close>

definition callbackData :: "taskID \<Rightarrow> string \<Rightarrow> string" where
  "callbackData taskID option = fmt_d (sint taskID) @ '':'' @ option"

definition sendTask :: "userID \<Rightarrow> Task \<Rightarrow> outbound list" where
  "sendTask chatID task =
     [SendKeyboard chatID (Text task @ choose_suffix)
        (map (\<lambda>option. (option, callbackData (ID task) option)) (Options task))]"

definition handleTaskCommand ::
    "read_outcome \<Rightarrow> userID \<Rightarrow> bot_state \<Rightarrow> outbound list \<times> bot_state" where
  "handleTaskCommand oc chatID s =
     (case getNextTask oc chatID s of
        (None, s') \<Rightarrow> ([SendMessage chatID msg_all_solved], s')
      | (Some task, s') \<Rightarrow> (sendTask chatID task, s'))"

text \<open>
  The head of \<^verbatim>\<open>handleCallbackQuery\<close>: \<^verbatim>\<open>strings.SplitN(query.Data, ":", 2)\<close>, the test
  \<^verbatim>\<open>len(parts) != 2\<close>, and \<^verbatim>\<open>strconv.Atoi(parts[0])\<close>.  \<open>None\<close> is the early \<^verbatim>\<open>return\<close>.
\<close>

definition parseCallback :: "string \<Rightarrow> (taskID \<times> string) option" where
  "parseCallback data =
     (let parts = SplitN2 data (CHR '':'')
      in if length parts \<noteq> 2 then None
         else (case Atoi (parts ! 0) of
                 Inl err \<Rightarrow> None
               | Inr taskID \<Rightarrow> Some (taskID, parts ! 1)))"

text \<open>
  \<^verbatim>\<open>handleCallbackQuery\<close>.  The first outcome is that of the \<^verbatim>\<open>INSERT\<close>, the second that of
  the \<^verbatim>\<open>SELECT\<close> made by \<^verbatim>\<open>getNextTask\<close>.  An error of \<^verbatim>\<open>saveUserProgress\<close> is logged and the
  handler goes on.
\<close>

definition handleCallbackQuery ::
    "store_outcome \<Rightarrow> read_outcome \<Rightarrow> CallbackQuery \<Rightarrow> bot_state \<Rightarrow> outbound list \<times> bot_state" where
  "handleCallbackQuery oc_save oc_read query s =
     (case parseCallback (Data query) of
        None \<Rightarrow> ([], s)
      | Some (taskID, answer) \<Rightarrow>
          (case findTask taskID of
             None \<Rightarrow> ([], s)
           | Some task \<Rightarrow>
               let userID = FromID query;
                   answerCorrect = (answer = Answer task);
                   s1 = (if answerCorrect
                         then snd (saveUserProgress oc_save userID (ID task) True s)
                         else s);
                   reply = AnswerCallback (QueryID query)
                             (if answerCorrect then msg_correct else msg_incorrect)
               in if answerCorrect
                  then (case getNextTask oc_read userID s1 of
                          (Some nextTask, s2) \<Rightarrow> (reply # sendTask userID nextTask, s2)
                        | (None, s2) \<Rightarrow>
                            ([reply, SendMessage userID msg_all_available_solved], s2))
                  else ([reply], s1)))"

definition handleCallbackQuery_mem ::
    "CallbackQuery \<Rightarrow> 'a cache_state_scheme \<Rightarrow> outbound list \<times> 'a cache_state_scheme" where
  "handleCallbackQuery_mem query s =
     (case parseCallback (Data query) of
        None \<Rightarrow> ([], s)
      | Some (taskID, answer) \<Rightarrow>
          (case findTask taskID of
             None \<Rightarrow> ([], s)
           | Some task \<Rightarrow>
               let userID = FromID query;
                   answerCorrect = (answer = Answer task);
                   s1 = (if answerCorrect
                         then snd (saveUserProgress_mem userID (ID task) True s)
                         else s);
                   reply = AnswerCallback (QueryID query)
                             (if answerCorrect then msg_correct else msg_incorrect)
               in if answerCorrect
                  then (case getNextTask_mem userID s1 of
                          (Some nextTask, s2) \<Rightarrow> (reply # sendTask userID nextTask, s2)
                        | (None, s2) \<Rightarrow>
                            ([reply, SendMessage userID msg_all_available_solved], s2))
                  else ([reply], s1)))"

text \<open>
  \<^verbatim>\<open>showProgress\<close>: the loop \<^verbatim>\<open>for _, v := range progress { if v { solved++ } }\<close>, and the text
  \<^verbatim>\<open>Sprintf("...%d/%d...%.1f%%", solved, total, float64(solved)/float64(total)*100)\<close>.
\<close>

fun count_solved :: "progress \<Rightarrow> nat \<Rightarrow> nat" where
  "count_solved [] solved = solved"
| "count_solved ((k, v) # entries) solved =
     count_solved entries (if v then solved + 1 else solved)"

definition percentage :: "nat \<Rightarrow> nat \<Rightarrow> rat" where
  "percentage solved ntotal =
     f64_mul (f64_div (float64_of_int (int solved)) (float64_of_int (int ntotal))) 100"

text \<open>
  The percentage in the words of the specification: \<open>solved / total * 100\<close> as an exact
  number, printed with one digit after the point.
\<close>

definition spec_percentage :: "nat \<Rightarrow> nat \<Rightarrow> string" where
  "spec_percentage solved ntotal = fmt_f1 (of_nat solved / of_nat ntotal * 100)"

definition progressText :: "nat \<Rightarrow> nat \<Rightarrow> string" where
  "progressText solved ntotal =
     progress_head @ fmt_d (int solved) @ ''/'' @ fmt_d (int ntotal) @ progress_mid
       @ fmt_f1 (percentage solved ntotal) @ ''%''"

definition showProgress ::
    "read_outcome \<Rightarrow> userID \<Rightarrow> bot_state \<Rightarrow> outbound list \<times> bot_state" where
  "showProgress oc chatID s =
     (case getUserProgress oc chatID s of
        (Inl err, s') \<Rightarrow> ([SendMessage chatID msg_progress_error], s')
      | (Inr progress, s') \<Rightarrow>
          let ntotal = length getTasks;
              solved = count_solved (heap s' progress) 0
          in ([SendMessage chatID (progressText solved ntotal)], s'))"

definition showProgress_mem ::
    "userID \<Rightarrow> 'a cache_state_scheme \<Rightarrow> outbound list \<times> 'a cache_state_scheme" where
  "showProgress_mem chatID s =
     (let (progress, s') = getUserProgress_mem chatID s;
          ntotal = length getTasks;
          solved = count_solved (heap s' progress) 0
      in ([SendMessage chatID (progressText solved ntotal)], s'))"

definition sendWelcome :: "userID \<Rightarrow> outbound list" where
  "sendWelcome chatID = [SendMessage chatID msg_welcome]"

definition handleCommand ::
    "read_outcome \<Rightarrow> string \<Rightarrow> userID \<Rightarrow> bot_state \<Rightarrow> outbound list \<times> bot_state" where
  "handleCommand oc command chatID s =
     (if command = ''start'' then (sendWelcome chatID, s)
      else if command = ''task'' then handleTaskCommand oc chatID s
      else if command = ''progress'' then showProgress oc chatID s
      else ([SendMessage chatID msg_unknown_command], s))"

section \<open>Runs of the program\<close>

text \<open>
  The state at the start of the process: nothing cached, and the table as the database
  holds it.
\<close>

definition init_state :: "table \<Rightarrow> bot_state" where
  "init_state rows =
     \<lparr>progressCache = Map.empty, heap = (\<lambda>r. []), nextRef = 0, user_progress = rows\<rparr>"

definition init_state_mem :: cache_state where
  "init_state_mem = \<lparr>progressCache = Map.empty, heap = (\<lambda>r. []), nextRef = 0\<rparr>"

text \<open>
  Every handler reaches the progress through \<^verbatim>\<open>getUserProgress\<close> and through
  \<^verbatim>\<open>saveUserProgress\<close> with \<^verbatim>\<open>solved = true\<close> (its one call site).  A run is a list of such
  calls, each database access with its outcome.
\<close>

datatype op = GetProgress read_outcome userID | RecordSolved store_outcome userID taskID

fun step :: "op \<Rightarrow> bot_state \<Rightarrow> bot_state" where
  "step (GetProgress oc userID) s = snd (getUserProgress oc userID s)"
| "step (RecordSolved oc userID taskID) s = snd (saveUserProgress oc userID taskID True s)"

definition run :: "op list \<Rightarrow> bot_state \<Rightarrow> bot_state" where
  "run ops s = fold step ops s"

datatype op_mem = GetProgress_mem userID | RecordSolved_mem userID taskID

fun step_mem :: "op_mem \<Rightarrow> 'a cache_state_scheme \<Rightarrow> 'a cache_state_scheme" where
  "step_mem (GetProgress_mem userID) s = snd (getUserProgress_mem userID s)"
| "step_mem (RecordSolved_mem userID taskID) s = snd (saveUserProgress_mem userID taskID True s)"

definition run_mem :: "op_mem list \<Rightarrow> 'a cache_state_scheme \<Rightarrow> 'a cache_state_scheme" where
  "run_mem ops s = fold step_mem ops s"

text \<open>
  Well-formed states.  The primary key of the table allows one row per user and task.  A
  cached reference is an allocated address, and in the file without a database (where maps
  are written to) no map has two entries for one task.  All of this holds at the start and
  is kept by every call.
\<close>

definition pk_ok :: "table \<Rightarrow> bool" where
  "pk_ok rows = distinct (map fst rows)"

definition refs_ok :: "'a cache_state_scheme \<Rightarrow> bool" where
  "refs_ok s = (\<forall>u r. progressCache s u = Some r \<longrightarrow> r < nextRef s)"

definition wf_mem :: "'a cache_state_scheme \<Rightarrow> bool" where
  "wf_mem s = (refs_ok s \<and> (\<forall>r. distinct (map fst (heap s r))))"

definition wf_state :: "bot_state \<Rightarrow> bool" where
  "wf_state s = (pk_ok (user_progress s) \<and> refs_ok s)"

text \<open>Every entry of the cached map of a user, where there is one, is a row of the table.\<close>

definition sound :: "userID \<Rightarrow> bot_state \<Rightarrow> bool" where
  "sound u s =
     (\<forall>r t b. progressCache s u = Some r \<longrightarrow> map_of (heap s r) t = Some b \<longrightarrow>
        map_of (user_progress s) (u, t) = Some b)"

section \<open>Decimal rendering and parsing\<close>

lemma is_digit_digit_char: "d < 10 \<Longrightarrow> is_digit (digit_char d)"
  by (simp add: is_digit_def digit_char_def)

lemma digit_val_digit_char: "d < 10 \<Longrightarrow> digit_val (digit_char d) = d"
  by (simp add: digit_val_def digit_char_def)

lemma digit_char_values:
  "digit_char 0 = CHR ''0''" "digit_char 1 = CHR ''1''" "digit_char 2 = CHR ''2''"
  "digit_char 3 = CHR ''3''" "digit_char 4 = CHR ''4''" "digit_char 5 = CHR ''5''"
  "digit_char 6 = CHR ''6''" "digit_char 7 = CHR ''7''" "digit_char 8 = CHR ''8''"
  "digit_char 9 = CHR ''9''" "digit_char (Suc 0) = CHR ''1''"
  by code_simp+

lemma digits_all_digit: "list_all is_digit (digits n)"
proof (induction n rule: digits.induct)
  case (1 n)
  show ?case
  proof (cases "n < 10")
    case True
    then show ?thesis by (simp add: digits.simps [of n] is_digit_digit_char)
  next
    case False
    with 1 show ?thesis by (simp add: digits.simps [of n] is_digit_digit_char)
  qed
qed

lemma digits_nonempty: "digits n \<noteq> []"
  by (simp add: digits.simps [of n])

lemma digits_value_snoc:
  "digits_value acc (cs @ [c]) = digits_value acc cs * 10 + digit_val c"
  by (induction cs arbitrary: acc) simp_all

lemma digits_value_digits: "digits_value 0 (digits n) = n"
proof (induction n rule: digits.induct)
  case (1 n)
  show ?case
  proof (cases "n < 10")
    case True
    then show ?thesis by (simp add: digits.simps [of n] digit_val_digit_char)
  next
    case False
    with 1 show ?thesis
      by (simp add: digits.simps [of n] digits_value_snoc digit_val_digit_char)
  qed
qed

lemma is_digit_not_sign:
  "is_digit c \<Longrightarrow> c \<noteq> CHR ''-'' \<and> c \<noteq> CHR ''+'' \<and> c \<noteq> CHR '':''"
  by (auto simp: is_digit_def)

lemma digits_value_ge: "n \<le> digits_value n cs"
proof (induction cs arbitrary: n)
  case Nil
  then show ?case by simp
next
  case (Cons c cs)
  have "n \<le> n * 10 + digit_val c" by simp
  also have "\<dots> \<le> digits_value (n * 10 + digit_val c) cs" by (rule Cons.IH)
  finally show ?case by simp
qed

text \<open>On a string of digits whose value fits \<^verbatim>\<open>uint64\<close> the loop returns that value.\<close>

lemma parse_digits_value:
  "list_all is_digit ds \<Longrightarrow> digits_value n ds < 2 ^ 64 \<Longrightarrow>
   parse_digits n ds = Inr (digits_value n ds)"
proof (induction ds arbitrary: n)
  case Nil
  then show ?case by simp
next
  case (Cons c cs)
  let ?n1 = "n * 10 + digit_val c"
  from Cons.prems have dig: "is_digit c" and rest: "list_all is_digit cs"
    and val: "digits_value ?n1 cs < 2 ^ 64"
    by simp_all
  from digits_value_ge [of ?n1 cs] val have n1: "?n1 < 2 ^ 64" by simp
  then have small: "\<not> (2 ^ 64 - 1) div 10 + 1 \<le> n" and fits: "\<not> 2 ^ 64 - 1 < ?n1"
    by simp_all
  have "parse_digits n (c # cs) = parse_digits ?n1 cs"
    using dig small fits by (simp add: Let_def)
  also have "\<dots> = Inr (digits_value ?n1 cs)" using rest val by (rule Cons.IH)
  finally show ?case by simp
qed

text \<open>\<^verbatim>\<open>Atoi\<close> reads back what \<^verbatim>\<open>%d\<close> prints, for every value of type \<^verbatim>\<open>int\<close>.\<close>

lemma Atoi_fmt_d: "Atoi (fmt_d (sint n)) = Inr n"
proof (cases "sint n < 0")
  case True
  let ?k = "nat (- sint n)"
  have "- (2 ^ 63) \<le> sint n" using sint_ge [of n] by simp
  with True have k: "?k \<le> 2 ^ 63" and bk: "- int ?k = sint n" by simp_all
  have "digits_value 0 (digits ?k) < 2 ^ 64" using k by (simp add: digits_value_digits)
  then have p: "parse_digits 0 (digits ?k) = Inr ?k"
    using parse_digits_value [OF digits_all_digit, of 0 ?k] by (simp add: digits_value_digits)
  have a: "Atoi (CHR ''-'' # digits ?k) = Inr (word_of_int (- int ?k))"
    using k by (simp add: Atoi_def digits_nonempty p)
  have f: "fmt_d (sint n) = CHR ''-'' # digits ?k"
    using True by (simp add: fmt_d_def)
  show ?thesis unfolding f a bk by simp
next
  case False
  let ?k = "nat (sint n)"
  obtain c cs where cs: "digits ?k = c # cs"
    using digits_nonempty [of ?k] by (cases "digits ?k") auto
  have "is_digit c" using digits_all_digit [of ?k] cs by simp
  then have c: "c \<noteq> CHR ''-''" "c \<noteq> CHR ''+''" using is_digit_not_sign by auto
  have "sint n < 2 ^ 63" using sint_lt [of n] by simp
  with False have k: "?k < 2 ^ 63" and bk: "int ?k = sint n" by simp_all
  have "digits_value 0 (digits ?k) < 2 ^ 64" using k by (simp add: digits_value_digits)
  then have "parse_digits 0 (digits ?k) = Inr ?k"
    using parse_digits_value [OF digits_all_digit, of 0 ?k] by (simp add: digits_value_digits)
  then have p: "parse_digits 0 (c # cs) = Inr ?k" by (simp only: cs)
  have a: "Atoi (c # cs) = Inr (word_of_int (int ?k))"
    using c k by (simp add: Atoi_def p del: parse_digits.simps)
  have f: "fmt_d (sint n) = c # cs"
    using False cs by (simp add: fmt_d_def)
  show ?thesis unfolding f a bk by simp
qed

lemma cut_first: "sep \<notin> set a \<Longrightarrow> cut sep (a @ sep # b) = Some (a, b)"
  by (induction a) auto

lemma fmt_d_no_colon: "CHR '':'' \<notin> set (fmt_d i)"
proof -
  have "\<And>n. CHR '':'' \<notin> set (digits n)"
    using digits_all_digit is_digit_not_sign by (fastforce simp: list_all_iff)
  then show ?thesis by (simp add: fmt_d_def)
qed

lemma parseCallback_callbackData: "parseCallback (callbackData n s) = Some (n, s)"
  by (simp add: parseCallback_def callbackData_def SplitN2_def cut_first fmt_d_no_colon
      Atoi_fmt_d)

text \<open>The library functions at some inputs.\<close>

lemma Atoi_examples:
  "Atoi ''-17'' = Inr (- 17)" "Atoi ''+5'' = Inr 5" "Atoi ''007'' = Inr 7"
  "Atoi '''' = Inl ErrSyntax" "Atoi ''-'' = Inl ErrSyntax" "Atoi ''1x'' = Inl ErrSyntax"
  "Atoi '' 1'' = Inl ErrSyntax"
  by (simp_all add: Atoi_def is_digit_def digit_val_def)

lemma Atoi_range:
  "Atoi ''9223372036854775807'' = Inr 9223372036854775807"
  "Atoi ''9223372036854775808'' = Inl ErrRange"
  "Atoi ''-9223372036854775808'' = Inr (- 9223372036854775808)"
  "Atoi ''-9223372036854775809'' = Inl ErrRange"
  "Atoi ''99999999999999999999x'' = Inl ErrRange"
  "Atoi ''9999999999999999999x'' = Inl ErrSyntax"
  by (simp_all add: Atoi_def is_digit_def digit_val_def)

lemma SplitN2_examples:
  "SplitN2 ''2:a:b'' (CHR '':'') = [''2'', ''a:b'']" "SplitN2 ''2'' (CHR '':'') = [''2'']"
  "SplitN2 ''2:'' (CHR '':'') = [''2'', '''']"
  by (simp_all add: SplitN2_def)

section \<open>The table and the snapshot read from it\<close>

lemma map_of_scan_rows:
  "distinct (map fst rows) \<Longrightarrow> map_of (scan_rows rows acc) = map_of acc ++ map_of rows"
proof (induction rows arbitrary: acc)
  case Nil
  then show ?case by simp
next
  case (Cons row rows)
  obtain k v where row: "row = (k, v)" by (cases row)
  from Cons.prems row have k: "k \<notin> fst ` set rows" and d: "distinct (map fst rows)"
    by auto
  from k have "map_of rows k = None" by (simp add: map_of_eq_None_iff)
  then have swap: "(map_of acc)(k \<mapsto> v) ++ map_of rows = (map_of acc ++ map_of rows)(k \<mapsto> v)"
    by (auto simp: map_add_def fun_eq_iff split: option.splits)
  have "map_of (scan_rows (row # rows) acc) = map_of (AList.update k v acc) ++ map_of rows"
    using Cons.IH [OF d] row by simp
  also have "\<dots> = (map_of acc)(k \<mapsto> v) ++ map_of rows"
    by (simp only: update_conv')
  also have "\<dots> = (map_of acc ++ map_of rows)(k \<mapsto> v)"
    by (rule swap)
  also have "\<dots> = map_of acc ++ map_of (row # rows)"
    by (simp only: row map_of.simps fst_conv snd_conv map_add_upd)
  finally show ?case .
qed


lemma fst_select_rows: "map fst (select_rows u rows) = map snd (filter (\<lambda>k. fst k = u) (map fst rows))"
  by (induction rows) (auto simp: select_rows_def)

lemma distinct_select_rows:
  assumes "pk_ok rows"
  shows "distinct (map fst (select_rows u rows))"
proof -
  have "inj_on snd {k. fst k = u}" for u :: userID
    by (auto simp: inj_on_def)
  then have "inj_on snd (set (filter (\<lambda>k. fst k = u) (map fst rows)))"
    by (rule inj_on_subset) auto
  moreover have "distinct (filter (\<lambda>k. fst k = u) (map fst rows))"
    using assms by (simp add: pk_ok_def)
  ultimately show ?thesis
    by (simp add: fst_select_rows distinct_map)
qed

lemma map_of_select_rows: "map_of (select_rows u rows) t = map_of rows (u, t)"
  by (induction rows) (auto simp: select_rows_def)



lemma pk_ok_update: "pk_ok rows \<Longrightarrow> pk_ok (AList.update k v rows)"
  by (simp add: pk_ok_def distinct_update)


text \<open>A read that was cut short holds rows of the table only.\<close>

lemma map_of_take: "map_of (take n xs) k = Some v \<Longrightarrow> map_of xs k = Some v"
proof (induction xs arbitrary: n)
  case Nil
  then show ?case by simp
next
  case (Cons x xs)
  show ?case
  proof (cases n)
    case 0
    with Cons.prems show ?thesis by simp
  next
    case (Suc m)
    show ?thesis
    proof (cases "fst x = k")
      case True
      with Cons.prems Suc show ?thesis by simp
    next
      case False
      with Cons.prems Suc have "map_of (take m xs) k = Some v" by simp
      then have "map_of xs k = Some v" by (rule Cons.IH)
      with False show ?thesis by simp
    qed
  qed
qed

lemma distinct_take_keys: "distinct (map fst xs) \<Longrightarrow> distinct (map fst (take n xs))"
proof -
  assume "distinct (map fst xs)"
  then have "distinct (take n (map fst xs))" by (rule distinct_take)
  then show ?thesis by (simp only: take_map)
qed

lemma delivered_rows:
  assumes "pk_ok rows" "delivered oc (select_rows u rows) = Some got"
    and "map_of (scan_rows got []) t = Some b"
  shows "map_of rows (u, t) = Some b"
proof -
  have d: "distinct (map fst (select_rows u rows))"
    using assms(1) by (rule distinct_select_rows)
  have "distinct (map fst got)
        \<and> (map_of got t = Some b \<longrightarrow> map_of (select_rows u rows) t = Some b)"
  proof (cases oc)
    case ReadOk
    with assms(2) d show ?thesis by (simp add: delivered_def)
  next
    case ReadFail
    with assms(2) show ?thesis by (simp add: delivered_def)
  next
    case (ReadCut n)
    with assms(2) have "got = take n (select_rows u rows)" by (simp add: delivered_def)
    with d map_of_take [of n "select_rows u rows" t b] show ?thesis
      by (simp add: distinct_take_keys)
  qed
  moreover from this assms(3) have "map_of got t = Some b" by (simp add: map_of_scan_rows)
  ultimately show ?thesis by (simp add: map_of_select_rows)
qed

section \<open>The coordinator of \<^verbatim>\<open>main.go\<close>\<close>

lemma saveUserProgress_ok:
  "saveUserProgress StoreOk u t b s =
     (None, s\<lparr>progressCache := (progressCache s)(u := None),
              user_progress := AList.update (u, t) b (user_progress s)\<rparr>)"
  by (simp add: saveUserProgress_def exec_upsert_def)

lemma saveUserProgress_fail:
  "saveUserProgress StoreFail u t b s =
     (Some StoreUnavailable, s\<lparr>progressCache := (progressCache s)(u := None)\<rparr>)"
  by (simp add: saveUserProgress_def exec_upsert_def)

lemma getUserProgress_hit:
  "progressCache s u = Some r \<Longrightarrow> getUserProgress oc u s = (Inr r, s)"
  by (simp add: getUserProgress_def)

lemma getUserProgress_miss_fail:
  "progressCache s u = None \<Longrightarrow> getUserProgress ReadFail u s = (Inl StoreUnavailable, s)"
  by (simp add: getUserProgress_def delivered_def)

lemma getUserProgress_miss_load:
  "progressCache s u = None \<Longrightarrow> delivered oc (select_rows u (user_progress s)) = Some got \<Longrightarrow>
   getUserProgress oc u s =
     (Inr (nextRef s),
      s\<lparr>progressCache := (progressCache s)(u \<mapsto> nextRef s),
        heap := (heap s)(nextRef s := scan_rows got []),
        nextRef := Suc (nextRef s)\<rparr>)"
  by (simp add: getUserProgress_def Let_def)

lemma getUserProgress_miss_ok:
  "progressCache s u = None \<Longrightarrow>
   getUserProgress ReadOk u s =
     (Inr (nextRef s),
      s\<lparr>progressCache := (progressCache s)(u \<mapsto> nextRef s),
        heap := (heap s)(nextRef s := scan_rows (select_rows u (user_progress s)) []),
        nextRef := Suc (nextRef s)\<rparr>)"
  by (rule getUserProgress_miss_load) (simp_all add: delivered_def)

lemma getUserProgress_miss_cut:
  "progressCache s u = None \<Longrightarrow>
   getUserProgress (ReadCut n) u s =
     (Inr (nextRef s),
      s\<lparr>progressCache := (progressCache s)(u \<mapsto> nextRef s),
        heap := (heap s)(nextRef s := scan_rows (take n (select_rows u (user_progress s))) []),
        nextRef := Suc (nextRef s)\<rparr>)"
  by (rule getUserProgress_miss_load) (simp_all add: delivered_def)

lemma getUserProgress_cases:
  obtains (hit) r where "progressCache s u = Some r" "getUserProgress oc u s = (Inr r, s)"
  | (fail) "progressCache s u = None" "oc = ReadFail"
      "getUserProgress oc u s = (Inl StoreUnavailable, s)"
  | (load) got where "progressCache s u = None"
      "delivered oc (select_rows u (user_progress s)) = Some got"
      "getUserProgress oc u s =
         (Inr (nextRef s),
          s\<lparr>progressCache := (progressCache s)(u \<mapsto> nextRef s),
            heap := (heap s)(nextRef s := scan_rows got []),
            nextRef := Suc (nextRef s)\<rparr>)"
proof (cases "progressCache s u")
  case None
  show ?thesis
  proof (cases "delivered oc (select_rows u (user_progress s))")
    case no: None
    then have "oc = ReadFail" by (auto simp: delivered_def split: read_outcome.splits)
    with None fail getUserProgress_miss_fail show ?thesis by auto
  next
    case (Some got)
    with None load getUserProgress_miss_load show ?thesis by blast
  qed
next
  case (Some r)
  then show ?thesis using hit getUserProgress_hit by auto
qed

lemma getUserProgress_table [simp]:
  "user_progress (snd (getUserProgress oc u s)) = user_progress s"
  by (cases rule: getUserProgress_cases [where s = s and u = u and oc = oc]) simp_all

lemma wf_getUserProgress: "wf_state s \<Longrightarrow> wf_state (snd (getUserProgress oc u s))"
  by (cases rule: getUserProgress_cases [where s = s and u = u and oc = oc])
    (auto simp: wf_state_def refs_ok_def less_Suc_eq)

lemma wf_saveUserProgress: "wf_state s \<Longrightarrow> wf_state (snd (saveUserProgress oc u t b s))"
  by (cases oc)
    (auto simp: saveUserProgress_ok saveUserProgress_fail wf_state_def refs_ok_def pk_ok_update)

lemma wf_step: "wf_state s \<Longrightarrow> wf_state (step op s)"
  by (cases op) (simp_all add: wf_getUserProgress wf_saveUserProgress)

lemma wf_run: "wf_state s \<Longrightarrow> wf_state (run ops s)"
  unfolding run_def by (induction ops arbitrary: s) (simp_all add: wf_step)

text \<open>
  A cached map holds rows of the table only: it was filled from the table, completely or
  in part, and every write to the table of its user has removed it from the cache.
\<close>

lemma sound_getUserProgress:
  assumes "wf_state s" "sound u s"
  shows "sound u (snd (getUserProgress oc v s))"
proof (cases rule: getUserProgress_cases [where s = s and u = v and oc = oc])
  case (hit r)
  with assms show ?thesis by simp
next
  case fail
  with assms show ?thesis by simp
next
  case (load got)
  show ?thesis
  proof (cases "v = u")
    case True
    from assms(1) have pk: "pk_ok (user_progress s)" by (simp add: wf_state_def)
    from delivered_rows [OF pk load(2)] True load(3) show ?thesis
      by (simp add: sound_def)
  next
    case False
    from assms(1) have "\<And>r. progressCache s u = Some r \<Longrightarrow> r \<noteq> nextRef s"
      by (auto simp: wf_state_def refs_ok_def)
    with False load(3) assms(2) show ?thesis
      by (auto simp: sound_def)
  qed
qed

lemma sound_saveUserProgress:
  assumes "sound u s"
  shows "sound u (snd (saveUserProgress oc v t b s))"
proof (cases "v = u")
  case True
  then show ?thesis
    by (cases oc) (simp_all add: saveUserProgress_ok saveUserProgress_fail sound_def)
next
  case False
  with assms show ?thesis
    by (cases oc)
      (simp_all add: saveUserProgress_ok saveUserProgress_fail sound_def update_conv')
qed

lemma sound_step: "wf_state s \<Longrightarrow> sound u s \<Longrightarrow> sound u (step op s)"
  by (cases op) (simp_all add: sound_getUserProgress sound_saveUserProgress)

lemma sound_run: "wf_state s \<Longrightarrow> sound u s \<Longrightarrow> sound u (run ops s)"
  unfolding run_def by (induction ops arbitrary: s) (simp_all add: sound_step wf_step)

lemma sound_after_save: "sound u (snd (saveUserProgress oc u t b s))"
  by (cases oc) (simp_all add: saveUserProgress_ok saveUserProgress_fail sound_def)

text \<open>Every entry of a map that a read returns is a row of the table.\<close>

lemma getUserProgress_reads_table:
  assumes "wf_state s" "sound u s" "getUserProgress oc u s = (Inr r, s')"
    and "map_of (heap s' r) t = Some b"
  shows "map_of (user_progress s) (u, t) = Some b"
proof (cases rule: getUserProgress_cases [where s = s and u = u and oc = oc])
  case (hit r')
  with assms show ?thesis by (simp add: sound_def)
next
  case fail
  with assms show ?thesis by simp
next
  case (load got)
  from assms(1) have pk: "pk_ok (user_progress s)" by (simp add: wf_state_def)
  from load(3) assms(3,4) have "map_of (scan_rows got []) t = Some b" by auto
  with pk load(2) show ?thesis by (rule delivered_rows)
qed

lemma getUserProgress_error:
  "getUserProgress oc u s = (Inl e, s') \<Longrightarrow>
   oc = ReadFail \<and> progressCache s u = None \<and> e = StoreUnavailable \<and> s' = s"
  by (cases rule: getUserProgress_cases [where s = s and u = u and oc = oc]) auto

text \<open>The rows of the table under the calls of a run.\<close>

lemma other_row_step:
  "op \<noteq> RecordSolved StoreOk u t \<Longrightarrow>
   map_of (user_progress (step op s)) (u, t) = map_of (user_progress s) (u, t)"
proof (cases op)
  case (GetProgress oc v)
  then show ?thesis by simp
next
  case (RecordSolved oc v t')
  assume "op \<noteq> RecordSolved StoreOk u t"
  with RecordSolved show ?thesis
    by (cases oc) (auto simp: saveUserProgress_ok saveUserProgress_fail update_conv')
qed

lemma other_row_run:
  "RecordSolved StoreOk u t \<notin> set ops \<Longrightarrow>
   map_of (user_progress (run ops s)) (u, t) = map_of (user_progress s) (u, t)"
  unfolding run_def by (induction ops arbitrary: s) (auto simp: other_row_step)

text \<open>Maps are never written to after they have been stored.\<close>

lemma heap_getUserProgress:
  "r < nextRef s \<Longrightarrow>
   heap (snd (getUserProgress oc u s)) r = heap s r \<and> r < nextRef (snd (getUserProgress oc u s))"
  by (cases rule: getUserProgress_cases [where s = s and u = u and oc = oc]) simp_all

lemma heap_saveUserProgress:
  "heap (snd (saveUserProgress oc u t b s)) = heap s
   \<and> nextRef (snd (saveUserProgress oc u t b s)) = nextRef s"
  by (cases oc) (simp_all add: saveUserProgress_ok saveUserProgress_fail)

lemma cache_saveUserProgress:
  "progressCache (snd (saveUserProgress oc u t b s)) = (progressCache s)(u := None)"
  by (cases oc) (simp_all add: saveUserProgress_ok saveUserProgress_fail)

lemma heap_step: "r < nextRef s \<Longrightarrow> heap (step op s) r = heap s r \<and> r < nextRef (step op s)"
  by (cases op) (simp_all add: heap_getUserProgress heap_saveUserProgress)

lemma heap_run: "r < nextRef s \<Longrightarrow> heap (run ops s) r = heap s r \<and> r < nextRef (run ops s)"
  unfolding run_def
proof (induction ops arbitrary: s)
  case Nil
  then show ?case by simp
next
  case (Cons op ops)
  from heap_step [OF Cons.prems, of op] Cons.IH [of "step op s"] show ?case by simp
qed

lemma getUserProgress_ref_allocated:
  "refs_ok s \<Longrightarrow> getUserProgress oc u s = (Inr r, s') \<Longrightarrow> r < nextRef s'"
  by (cases rule: getUserProgress_cases [where s = s and u = u and oc = oc])
    (auto simp: refs_ok_def)

section \<open>The coordinator of the file without a database\<close>

lemma getUserProgress_mem_hit:
  "progressCache s u = Some r \<Longrightarrow> getUserProgress_mem u s = (r, s)"
  by (simp add: getUserProgress_mem_def)

lemma getUserProgress_mem_miss:
  "progressCache s u = None \<Longrightarrow>
   getUserProgress_mem u s =
     (nextRef s,
      s\<lparr>progressCache := (progressCache s)(u \<mapsto> nextRef s),
        heap := (heap s)(nextRef s := []),
        nextRef := Suc (nextRef s)\<rparr>)"
  by (simp add: getUserProgress_mem_def Let_def)

lemma getUserProgress_mem_cached:
  "getUserProgress_mem u s = (r, s') \<Longrightarrow> progressCache s' u = Some r"
  by (cases "progressCache s u")
    (auto simp: getUserProgress_mem_miss getUserProgress_mem_hit)

lemma saveUserProgress_mem_hit:
  "progressCache s u = Some r \<Longrightarrow>
   saveUserProgress_mem u t b s =
     (None, s\<lparr>heap := (heap s)(r := AList.update t b (heap s r))\<rparr>)"
proof -
  assume hit: "progressCache s u = Some r"
  then have "(progressCache s)(u \<mapsto> r) = progressCache s"
    by (auto simp: fun_eq_iff)
  with hit show ?thesis
    by (simp add: saveUserProgress_mem_def getUserProgress_mem_hit)
qed

lemma saveUserProgress_mem_miss:
  "progressCache s u = None \<Longrightarrow>
   saveUserProgress_mem u t b s =
     (None,
      s\<lparr>progressCache := (progressCache s)(u \<mapsto> nextRef s),
        heap := (heap s)(nextRef s := [(t, b)]),
        nextRef := Suc (nextRef s)\<rparr>)"
  by (simp add: saveUserProgress_mem_def getUserProgress_mem_miss)

lemma wf_mem_getUserProgress_mem:
  assumes "wf_mem s"
  shows "wf_mem (snd (getUserProgress_mem u s))"
proof (cases "progressCache s u")
  case None
  from assms have "\<And>v r. progressCache s v = Some r \<Longrightarrow> r < nextRef s"
    by (simp add: wf_mem_def refs_ok_def)
  then have fresh: "\<And>v. progressCache s v \<noteq> Some (nextRef s)"
    by fastforce
  with assms None show ?thesis
    by (auto simp: getUserProgress_mem_miss wf_mem_def refs_ok_def less_Suc_eq)
next
  case (Some r)
  with assms show ?thesis by (simp add: getUserProgress_mem_hit)
qed

lemma wf_mem_saveUserProgress_mem:
  assumes "wf_mem s"
  shows "wf_mem (snd (saveUserProgress_mem u t b s))"
proof (cases "progressCache s u")
  case None
  from assms have "\<And>v r. progressCache s v = Some r \<Longrightarrow> r < nextRef s"
    by (simp add: wf_mem_def refs_ok_def)
  then have fresh: "\<And>v. progressCache s v \<noteq> Some (nextRef s)"
    by fastforce
  with assms None show ?thesis
    by (auto simp: saveUserProgress_mem_miss wf_mem_def refs_ok_def less_Suc_eq)
next
  case (Some r)
  with assms show ?thesis
    by (auto simp: saveUserProgress_mem_hit wf_mem_def refs_ok_def distinct_update)
qed

lemma wf_mem_step: "wf_mem s \<Longrightarrow> wf_mem (step_mem op s)"
  by (cases op) (simp_all add: wf_mem_getUserProgress_mem wf_mem_saveUserProgress_mem)

lemma wf_mem_run: "wf_mem s \<Longrightarrow> wf_mem (run_mem ops s)"
  unfolding run_mem_def by (induction ops arbitrary: s) (simp_all add: wf_mem_step)

text \<open>Once the cached map of a user holds a task as solved, it does so after every call.\<close>

lemma solved_mem_getUserProgress_mem:
  assumes "wf_mem s" "progressCache s u = Some r" "map_of (heap s r) t = Some True"
  shows "progressCache (snd (getUserProgress_mem v s)) u = Some r
         \<and> map_of (heap (snd (getUserProgress_mem v s)) r) t = Some True"
proof (cases "progressCache s v")
  case None
  from assms have "r < nextRef s" by (simp add: wf_mem_def refs_ok_def)
  with assms None show ?thesis by (auto simp: getUserProgress_mem_miss)
next
  case (Some r')
  with assms show ?thesis by (simp add: getUserProgress_mem_hit)
qed

lemma solved_mem_saveUserProgress_mem:
  assumes "wf_mem s" "progressCache s u = Some r" "map_of (heap s r) t = Some True"
  shows "progressCache (snd (saveUserProgress_mem v t' True s)) u = Some r
         \<and> map_of (heap (snd (saveUserProgress_mem v t' True s)) r) t = Some True"
proof (cases "progressCache s v")
  case None
  from assms have "r < nextRef s" by (simp add: wf_mem_def refs_ok_def)
  with assms None show ?thesis by (auto simp: saveUserProgress_mem_miss)
next
  case (Some r')
  with assms show ?thesis by (auto simp: saveUserProgress_mem_hit update_conv')
qed

lemma solved_mem_step:
  assumes "wf_mem s" "progressCache s u = Some r" "map_of (heap s r) t = Some True"
  shows "progressCache (step_mem op s) u = Some r \<and> map_of (heap (step_mem op s) r) t = Some True"
  using assms
  by (cases op) (simp_all add: solved_mem_getUserProgress_mem solved_mem_saveUserProgress_mem)

lemma solved_mem_run:
  assumes "wf_mem s" "progressCache s u = Some r" "map_of (heap s r) t = Some True"
  shows "progressCache (run_mem ops s) u = Some r \<and> map_of (heap (run_mem ops s) r) t = Some True"
  using assms unfolding run_mem_def
proof (induction ops arbitrary: s)
  case Nil
  then show ?case by simp
next
  case (Cons op ops)
  from solved_mem_step [OF Cons.prems, of op] wf_mem_step [OF Cons.prems(1), of op]
  show ?case using Cons.IH [of "step_mem op s"] by simp
qed

lemma saveUserProgress_mem_records:
  "\<exists>r. progressCache (snd (saveUserProgress_mem u t b s)) u = Some r
       \<and> map_of (heap (snd (saveUserProgress_mem u t b s)) r) t = Some b"
  by (cases "progressCache s u")
    (auto simp: saveUserProgress_mem_miss saveUserProgress_mem_hit update_conv')




text \<open>
  In the file without a database a solved flag never goes back: after
  \<^verbatim>\<open>saveUserProgress(U, T, true)\<close> and any further calls, \<^verbatim>\<open>getUserProgress(U)\<close> returns a map
  in which \<open>T\<close> is solved.
\<close>

lemma no_regression_mem:
  assumes "wf_mem m"
    and "getUserProgress_mem U (run_mem ops (snd (saveUserProgress_mem U T True m))) = (r, m2)"
  shows "map_of (heap m2 r) T = Some True"
proof -
  let ?m1 = "snd (saveUserProgress_mem U T True m)"
  have wfm: "wf_mem ?m1" using assms(1) by (rule wf_mem_saveUserProgress_mem)
  obtain r0 where r0: "progressCache ?m1 U = Some r0" "map_of (heap ?m1 r0) T = Some True"
    using saveUserProgress_mem_records [of U T True m] by blast
  from solved_mem_run [OF wfm r0, of ops]
  have after: "progressCache (run_mem ops ?m1) U = Some r0"
    "map_of (heap (run_mem ops ?m1) r0) T = Some True"
    by simp_all
  from after(1) assms(2) have "r = r0" "m2 = run_mem ops ?m1"
    by (simp_all add: getUserProgress_mem_hit)
  with after(2) show ?thesis by simp
qed

section \<open>Dispatch\<close>

lemma firstUnsolved_find:
  "firstUnsolved tasks p = List.find (\<lambda>t. map_of p (ID t) \<noteq> Some True) tasks"
  by (induction tasks) (auto split: option.splits)

lemma firstUnsolved_None:
  "firstUnsolved tasks p = None \<longleftrightarrow> (\<forall>t\<in>set tasks. map_of p (ID t) = Some True)"
  by (auto simp: firstUnsolved_find find_None_iff)

lemma firstUnsolved_Some:
  "firstUnsolved tasks p = Some t \<longleftrightarrow>
     (\<exists>i<length tasks. tasks ! i = t \<and> map_of p (ID t) \<noteq> Some True
        \<and> (\<forall>j<i. map_of p (ID (tasks ! j)) = Some True))"
  by (auto simp: firstUnsolved_find find_Some_iff)

lemma firstUnsolved_cong:
  "(\<forall>t\<in>set tasks. map_of p' (ID t) = map_of p (ID t)) \<Longrightarrow>
   firstUnsolved tasks p' = firstUnsolved tasks p"
  by (induction tasks) (auto split: option.splits)

lemma getNextTask_ok:
  "getUserProgress oc u s = (Inr r, s') \<Longrightarrow>
   getNextTask oc u s = (firstUnsolved getTasks (heap s' r), s')"
  by (simp add: getNextTask_def)

lemma getNextTask_mem_eq:
  "getUserProgress_mem u m = (r, m') \<Longrightarrow>
   getNextTask_mem u m = (firstUnsolved getTasks (heap m' r), m')"
  by (simp add: getNextTask_mem_def)

lemma find_by_key:
  "distinct (map f xs) \<Longrightarrow> x \<in> set xs \<Longrightarrow> List.find (\<lambda>y. f y = f x) xs = Some x"
  by (induction xs) auto

lemma catalog_ids_distinct: "distinct (map ID getTasks)"
  by (simp add: getTasks_def)

lemma findTask_catalog: "task \<in> set getTasks \<Longrightarrow> findTask (ID task) = Some task"
  unfolding findTask_def by (rule find_by_key [OF catalog_ids_distinct])

lemma msg_correct_neq_incorrect: "msg_correct \<noteq> msg_incorrect"
  by (simp add: msg_correct_def msg_incorrect_def)

lemma handleCallbackQuery_reply:
  assumes "task \<in> set getTasks"
  shows "hd (fst (handleCallbackQuery oc1 oc2
                    \<lparr>QueryID = q, FromID = u, Data = callbackData (ID task) a\<rparr> s))
         = AnswerCallback q (if a = Answer task then msg_correct else msg_incorrect)"
  using assms
  by (simp add: handleCallbackQuery_def parseCallback_callbackData findTask_catalog Let_def
      split: prod.splits option.splits)

lemma handleCallbackQuery_mem_reply:
  assumes "task \<in> set getTasks"
  shows "hd (fst (handleCallbackQuery_mem
                    \<lparr>QueryID = q, FromID = u, Data = callbackData (ID task) a\<rparr> m))
         = AnswerCallback q (if a = Answer task then msg_correct else msg_incorrect)"
  using assms
  by (simp add: handleCallbackQuery_mem_def parseCallback_callbackData findTask_catalog Let_def
      split: prod.splits option.splits)

lemma handleCallbackQuery_incorrect:
  assumes "task \<in> set getTasks" "a \<noteq> Answer task"
  shows "handleCallbackQuery oc1 oc2
           \<lparr>QueryID = q, FromID = u, Data = callbackData (ID task) a\<rparr> s
         = ([AnswerCallback q msg_incorrect], s)"
  using assms
  by (simp add: handleCallbackQuery_def parseCallback_callbackData findTask_catalog Let_def)

lemma handleCallbackQuery_mem_incorrect:
  assumes "task \<in> set getTasks" "a \<noteq> Answer task"
  shows "handleCallbackQuery_mem
           \<lparr>QueryID = q, FromID = u, Data = callbackData (ID task) a\<rparr> m
         = ([AnswerCallback q msg_incorrect], m)"
  using assms
  by (simp add: handleCallbackQuery_mem_def parseCallback_callbackData findTask_catalog Let_def)

lemma task2_in_catalog:
  "\<lparr>ID = 2, Text = task2_text, Answer = ''int'',
     Options = [''integer'', ''float'', ''int'', ''number'']\<rparr> \<in> set getTasks"
  by (simp add: getTasks_def)

lemma callbackData_2: "callbackData 2 a = CHR ''2'' # CHR '':'' # a"
  by (simp add: callbackData_def fmt_d_def digits.simps digit_char_values)

lemma handleTaskCommand_read_failure:
  "progressCache s u = None \<Longrightarrow>
   handleTaskCommand ReadFail u s = ([SendMessage u msg_all_solved], s)"
  by (simp add: handleTaskCommand_def getNextTask_def getUserProgress_miss_fail)

lemma showProgress_read_failure:
  "progressCache s u = None \<Longrightarrow>
   showProgress ReadFail u s = ([SendMessage u msg_progress_error], s)"
  by (simp add: showProgress_def getUserProgress_miss_fail)

lemma msg_all_solved_neq_error: "msg_all_solved \<noteq> msg_progress_error"
  by (simp add: msg_all_solved_def msg_progress_error_def)

section \<open>\<^verbatim>\<open>float64\<close> rounding and the percentage\<close>

lemma round_half_even_error: "\<bar>of_int (round_half_even q) - q\<bar> \<le> 1 / 2"
proof -
  have "of_int \<lfloor>q\<rfloor> \<le> q" "q < of_int \<lfloor>q\<rfloor> + 1" by linarith+
  then show ?thesis
    by (auto simp: round_half_even_def Let_def)
qed

lemma round_half_even_near:
  assumes "\<bar>q - of_int n\<bar> < 1 / 2"
  shows "round_half_even q = n"
proof -
  have e: "\<bar>of_int (round_half_even q) - q\<bar> \<le> 1 / 2" by (rule round_half_even_error)
  have "\<bar>(of_int (round_half_even q) :: rat) - of_int n\<bar> < 1"
    using assms e by linarith
  then have "\<bar>(of_int (round_half_even q - n) :: rat)\<bar> < 1" by simp
  then have "\<bar>round_half_even q - n\<bar> < 1"
    by (metis of_int_abs of_int_less_1_iff)
  then show ?thesis by simp
qed

lemma round_half_even_of_int [simp]: "round_half_even (of_int n) = n"
  by (rule round_half_even_near) simp

lemma pow2_pos [simp]: "0 < (2::rat) powi e"
  by (simp add: power_int_def)

lemma float_exp_bounds:
  assumes "0 < x"
  shows "2 powi (float_exp x) \<le> x" and "x < 2 powi (float_exp x + 1)"
proof -
  obtain p q where pq: "quotient_of x = (p, q)" by (cases "quotient_of x")
  then have q: "0 < q" and x: "x = of_int p / of_int q"
    by (simp_all add: quotient_of_denom_pos quotient_of_div)
  with assms have p: "0 < p" by (simp add: zero_less_divide_iff)
  let ?e = "bitlen p - bitlen q"
  from bitlen_bounds [OF p] have bp: "2 ^ nat (bitlen p - 1) \<le> p" "p < 2 ^ nat (bitlen p)"
    by simp_all
  from bitlen_bounds [OF q] have bq: "2 ^ nat (bitlen q - 1) \<le> q" "q < 2 ^ nat (bitlen q)"
    by simp_all
  have p1: "1 \<le> bitlen p" using p bitlen_eq_zero_iff [of p] bitlen_nonneg [of p] by linarith
  have q1: "1 \<le> bitlen q" using q bitlen_eq_zero_iff [of q] bitlen_nonneg [of q] by linarith
  have P_lo: "(2::rat) powi (bitlen p - 1) \<le> of_int p"
  proof -
    have "(of_int (2 ^ nat (bitlen p - 1)) :: rat) \<le> of_int p" using bp(1) by (simp only: of_int_le_iff)
    then show ?thesis using p1 by (simp add: power_int_def)
  qed
  have P_hi: "of_int p < (2::rat) powi (bitlen p)"
  proof -
    have "(of_int p :: rat) < of_int (2 ^ nat (bitlen p))" using bp(2) by (simp only: of_int_less_iff)
    then show ?thesis using p1 by (simp add: power_int_def)
  qed
  have Q_lo: "(2::rat) powi (bitlen q - 1) \<le> of_int q"
  proof -
    have "(of_int (2 ^ nat (bitlen q - 1)) :: rat) \<le> of_int q" using bq(1) by (simp only: of_int_le_iff)
    then show ?thesis using q1 by (simp add: power_int_def)
  qed
  have Q_hi: "of_int q < (2::rat) powi (bitlen q)"
  proof -
    have "(of_int q :: rat) < of_int (2 ^ nat (bitlen q))" using bq(2) by (simp only: of_int_less_iff)
    then show ?thesis using q1 by (simp add: power_int_def)
  qed
  have qpos: "(0::rat) < of_int q" using q by simp
  have lo: "2 powi (?e - 1) \<le> x"
  proof -
    have "(2::rat) powi (?e - 1) = 2 powi (bitlen p - 1) / 2 powi (bitlen q)"
      by (simp add: power_int_diff)
    also have "\<dots> \<le> of_int p / 2 powi (bitlen q)"
      using P_lo by (simp add: divide_right_mono)
    also have "\<dots> \<le> of_int p / of_int q"
      using Q_hi qpos p by (simp add: frac_le)
    finally show ?thesis by (simp add: x)
  qed
  have hi: "x < 2 powi (?e + 1)"
  proof -
    have "x = of_int p / of_int q" by (rule x)
    also have "\<dots> < 2 powi (bitlen p) / of_int q"
      using P_hi qpos by (simp add: divide_strict_right_mono)
    also have "\<dots> \<le> 2 powi (bitlen p) / 2 powi (bitlen q - 1)"
      using Q_lo by (simp add: frac_le)
    also have "\<dots> = 2 powi (?e + 1)"
      by (simp add: power_int_diff power_int_add field_simps)
    finally show ?thesis .
  qed
  show "2 powi (float_exp x) \<le> x"
    using lo by (simp add: float_exp_def pq Let_def)
  show "x < 2 powi (float_exp x + 1)"
    using hi by (auto simp: float_exp_def pq Let_def not_le)
qed

lemma round64_pos_eq:
  assumes "0 < x"
  shows "round64 x
         = of_int (round_half_even (x * 2 powi (52 - float_exp x))) * 2 powi (float_exp x - 52)"
  using assms by (simp add: round64_def Let_def)

lemma round64_error:
  assumes "0 < x"
  shows "\<bar>round64 x - x\<bar> \<le> x / 2 ^ 53"
proof -
  let ?e = "float_exp x"
  let ?y = "x * 2 powi (52 - ?e)"
  let ?m = "round_half_even ?y"
  have scale: "(2::rat) powi (52 - ?e) * 2 powi (?e - 52) = 1"
    by (simp add: power_int_add [symmetric])
  then have unscale: "?y * 2 powi (?e - 52) = x"
    by (simp add: mult.assoc)
  have "round64 x - x = (of_int ?m - ?y) * 2 powi (?e - 52)"
    unfolding round64_pos_eq [OF assms] using unscale by (simp add: algebra_simps)
  then have "\<bar>round64 x - x\<bar> = \<bar>of_int ?m - ?y\<bar> * 2 powi (?e - 52)"
    by (simp add: abs_mult)
  also have "\<dots> \<le> (1 / 2) * 2 powi (?e - 52)"
    using round_half_even_error [of ?y] by (simp add: mult_right_mono)
  also have "\<dots> = 2 powi ?e / 2 ^ 53"
    by (simp add: power_int_diff)
  also have "\<dots> \<le> x / 2 ^ 53"
    using float_exp_bounds(1) [OF assms] by (simp add: divide_right_mono)
  finally show ?thesis .
qed

lemma round64_zero [simp]: "round64 0 = 0"
  by (simp add: round64_def)

lemma pow2_mono_less:
  assumes "(2::rat) powi a \<le> x" "x < 2 powi b"
  shows "a < b"
proof (rule ccontr)
  assume "\<not> a < b"
  then have "b \<le> a" by simp
  then have "(2::rat) powi b \<le> 2 powi a" by (simp add: power_int_increasing)
  with assms show False by simp
qed

lemma round64_of_int:
  assumes "0 \<le> n" "n < 2 ^ 53"
  shows "round64 (of_int n) = of_int n"
proof (cases "n = 0")
  case True
  then show ?thesis by simp
next
  case False
  with assms have pos: "(0::rat) < of_int n" by simp
  let ?e = "float_exp (of_int n)"
  have "(of_int n :: rat) < of_int (2 ^ 53)" using assms(2) by (simp only: of_int_less_iff)
  then have "(of_int n :: rat) < 2 powi 53" by simp
  with float_exp_bounds(1) [OF pos] have "?e < 53" by (rule pow2_mono_less)
  then have k: "0 \<le> 52 - ?e" by simp
  have "(2::rat) powi (52 - ?e) = of_int (2 ^ nat (52 - ?e))"
    using k by (simp add: power_int_def)
  then have "of_int n * (2::rat) powi (52 - ?e) = of_int (n * 2 ^ nat (52 - ?e))"
    by simp
  then have m: "round_half_even (of_int n * 2 powi (52 - ?e)) = n * 2 ^ nat (52 - ?e)"
    by (simp only: round_half_even_of_int)
  have scale: "(2::rat) powi (52 - ?e) * 2 powi (?e - 52) = 1"
    by (simp add: power_int_add [symmetric])
  have "round64 (of_int n) = of_int (n * 2 ^ nat (52 - ?e)) * 2 powi (?e - 52)"
    unfolding round64_pos_eq [OF pos] m ..
  also have "\<dots> = of_int n * (2 powi (52 - ?e) * 2 powi (?e - 52))"
    using k by (simp add: power_int_def mult.assoc)
  also have "\<dots> = of_int n" unfolding scale by simp
  finally show ?thesis .
qed

lemma digits_zero: "digits 0 = ''0''"
  by (simp add: digits.simps digit_char_values)

lemma fmt_f1_near_integer:
  assumes "0 \<le> x" "\<bar>x - of_nat n\<bar> < 1 / 20"
  shows "fmt_f1 x = digits n @ ''.0''"
proof -
  from assms have "\<bar>x * 10 - of_int (int (10 * n))\<bar> < 1 / 2"
    by (simp add: abs_if split: if_splits)
  then have r: "round_half_even (x * 10) = int (10 * n)"
    by (rule round_half_even_near)
  have "fmt_f1 x = digits (nat (int (10 * n) div 10)) @ ''.'' @ digits (nat (int (10 * n) mod 10))"
    using assms(1) by (simp add: fmt_f1_def Let_def r del: of_nat_mult)
  also have "int (10 * n) div 10 = int n" by simp
  also have "int (10 * n) mod 10 = 0" by simp
  finally show ?thesis by (simp add: digits_zero)
qed

lemma round64_pos:
  assumes "0 < x"
  shows "0 < round64 x"
proof -
  have "x / 2 ^ 53 < x" using assms by (simp add: field_simps)
  with round64_error [OF assms] show ?thesis by linarith
qed

lemma percentage_near:
  assumes "k \<le> 2 ^ 40"
  shows "0 \<le> percentage k 5 \<and> \<bar>percentage k 5 - of_nat (20 * k)\<bar> < 1 / 20"
proof (cases "k = 0")
  case True
  then show ?thesis
    by (simp add: percentage_def f64_mul_def f64_div_def float64_of_int_def)
next
  case False
  then have kpos: "(0::rat) < of_nat k" by simp
  have "int k < 2 ^ 53"
  proof -
    have "int k \<le> 2 ^ 40" using assms by (metis of_nat_le_iff of_nat_numeral of_nat_power)
    then show ?thesis by simp
  qed
  then have fk: "float64_of_int (int k) = of_nat k"
    unfolding float64_of_int_def using round64_of_int [of "int k"] by simp
  have f5: "float64_of_int 5 = 5"
    unfolding float64_of_int_def using round64_of_int [of 5] by simp
  define q :: rat where "q = of_nat k / 5"
  define a where "a = round64 q"
  define b where "b = round64 (a * 100)"
  have pct: "percentage k 5 = b"
    by (simp add: percentage_def f64_mul_def f64_div_def fk f5 a_def b_def q_def)
  have qpos: "0 < q" using kpos by (simp add: q_def)
  have qle: "q \<le> 2 ^ 40 / 5"
  proof -
    have "(of_nat k :: rat) \<le> of_nat (2 ^ 40)" using assms by (simp only: of_nat_le_iff)
    then show ?thesis by (simp add: q_def)
  qed
  have ea: "\<bar>a - q\<bar> \<le> q / 2 ^ 53" unfolding a_def using qpos by (rule round64_error)
  have apos: "0 < a" unfolding a_def using qpos by (rule round64_pos)
  then have a100: "0 < a * 100" by simp
  have eb: "\<bar>b - a * 100\<bar> \<le> a * 100 / 2 ^ 53" unfolding b_def using a100 by (rule round64_error)
  have bpos: "0 < b" unfolding b_def using a100 by (rule round64_pos)
  have "q / 2 ^ 53 \<le> q" using qpos by (simp add: field_simps)
  with ea have ale: "a \<le> 2 * q" by linarith
  have "b - q * 100 = (b - a * 100) + 100 * (a - q)" by simp
  then have "\<bar>b - q * 100\<bar> \<le> \<bar>b - a * 100\<bar> + \<bar>100 * (a - q)\<bar>"
    by (simp only: abs_triangle_ineq)
  also have "\<dots> = \<bar>b - a * 100\<bar> + 100 * \<bar>a - q\<bar>"
    by (simp only: abs_mult abs_numeral)
  also have "\<dots> \<le> a * 100 / 2 ^ 53 + 100 * (q / 2 ^ 53)"
    using ea eb by (intro add_mono mult_left_mono) simp_all
  also have "\<dots> \<le> 2 * q * 100 / 2 ^ 53 + 100 * (q / 2 ^ 53)"
    using ale by (simp add: divide_right_mono)
  also have "\<dots> = q * (300 / 2 ^ 53)" by simp
  also have "\<dots> \<le> (2 ^ 40 / 5) * (300 / 2 ^ 53)"
    using qle by (rule mult_right_mono) simp
  also have "\<dots> < 1 / 20" by simp
  finally have "\<bar>b - q * 100\<bar> < 1 / 20" .
  moreover have "q * 100 = of_nat (20 * k)" by (simp add: q_def)
  ultimately show ?thesis using bpos pct by simp
qed

lemma percentage_rendered:
  assumes "k \<le> 2 ^ 40"
  shows "fmt_f1 (percentage k 5) = digits (20 * k) @ ''.0''"
  using percentage_near [OF assms] fmt_f1_near_integer by blast

lemma spec_percentage_5: "spec_percentage k 5 = digits (20 * k) @ ''.0''"
proof -
  have "(of_nat k :: rat) / of_nat 5 * 100 = of_nat (20 * k)" by simp
  then show ?thesis
    unfolding spec_percentage_def using fmt_f1_near_integer [of "of_nat (20 * k)" "20 * k"]
    by simp
qed

lemma count_solved_acc: "count_solved p n = n + length (filter snd p)"
  by (induction p n rule: count_solved.induct) auto

lemma count_solved_eq: "count_solved p 0 = length (filter snd p)"
  by (simp add: count_solved_acc)

text \<open>
  The mantissa that \<open>round64\<close> computes for a positive number has 53 bits, and the rounding
  of \<open>1/5\<close> is the \<^verbatim>\<open>float64\<close> nearest to it, \<open>0x1999999999999A \<times> 2\<^sup>-\<^sup>5\<^sup>5\<close>.
\<close>

lemma round64_mantissa:
  assumes "0 < x"
  shows "2 ^ 52 \<le> round_half_even (x * 2 powi (52 - float_exp x))
         \<and> round_half_even (x * 2 powi (52 - float_exp x)) \<le> 2 ^ 53"
proof -
  let ?e = "float_exp x"
  let ?y = "x * 2 powi (52 - ?e)"
  let ?m = "round_half_even ?y"
  have "2 powi ?e * 2 powi (52 - ?e) \<le> ?y"
    using float_exp_bounds(1) [OF assms] by (simp add: mult_right_mono)
  then have lo: "2 ^ 52 \<le> ?y" by (simp add: power_int_add [symmetric])
  have "?y < 2 powi (?e + 1) * 2 powi (52 - ?e)"
    using float_exp_bounds(2) [OF assms] by (simp add: mult_strict_right_mono)
  then have hi: "?y < 2 ^ 53" by (simp add: power_int_add [symmetric])
  from round_half_even_error [of ?y] lo hi
  have "(2 ^ 52 :: rat) - 1 / 2 \<le> of_int ?m" and "of_int ?m < (2 ^ 53 :: rat) + 1 / 2"
    by linarith+
  then have "(of_int (2 ^ 52 - 1) :: rat) < of_int ?m" and "(of_int ?m :: rat) < of_int (2 ^ 53 + 1)"
    by simp_all
  then have "2 ^ 52 - 1 < ?m" and "?m < 2 ^ 53 + 1"
    by (simp_all only: of_int_less_iff)
  then show ?thesis by simp
qed

lemma round64_one_fifth: "round64 (1 / 5) = 3602879701896397 / 2 ^ 54"
  by code_simp

lemma percentage_1_of_5: "percentage 1 5 = 20"
  by code_simp

lemma fmt_f1_examples:
  "fmt_f1 (1 / 4) = ''0.2''" "fmt_f1 (3 / 4) = ''0.8''" "fmt_f1 (12345 / 100) = ''123.4''"
  by code_simp+

section \<open>The claims\<close>

text \<open>
  C1.  Reconciled mode (\<^verbatim>\<open>main.go\<close>).  Let task \<open>T\<close> not be stored as solved for user \<open>U\<close>,
  and let the \<^verbatim>\<open>INSERT\<close> of \<^verbatim>\<open>saveUserProgress(U, T, true)\<close> fail.  Then the call returns the
  error, the table is as before and the cache holds nothing for \<open>U\<close>; and a later
  \<^verbatim>\<open>getUserProgress(U)\<close>, after any further calls among which there is no successful write
  of \<open>(U, T)\<close>, returns no map in which \<open>T\<close> is solved (when its own read of the table fails
  it returns an error and no map at all; when the read is cut short the map holds rows of
  the table only).
\<close>

theorem C1_failed_write_not_reported:
  assumes "wf_state s"
    and "map_of (user_progress s) (U, T) \<noteq> Some True"
    and "saveUserProgress StoreFail U T True s = (err, s1)"
    and "RecordSolved StoreOk U T \<notin> set ops"
    and "getUserProgress oc U (run ops s1) = (res, s2)"
  shows "err = Some StoreUnavailable \<and> progressCache s1 U = None
         \<and> user_progress s1 = user_progress s
         \<and> (\<forall>r. res = Inr r \<longrightarrow> map_of (heap s2 r) T \<noteq> Some True)"
proof -
  from assms(3) have s1: "s1 = snd (saveUserProgress StoreFail U T True s)"
    and err: "err = Some StoreUnavailable"
    by (simp_all add: saveUserProgress_fail)
  have cache: "progressCache s1 U = None" and table: "user_progress s1 = user_progress s"
    unfolding s1 by (simp_all add: saveUserProgress_fail)
  have wf1: "wf_state s1" unfolding s1 using assms(1) by (rule wf_saveUserProgress)
  have snd1: "sound U s1" unfolding s1 by (rule sound_after_save)
  have wf2: "wf_state (run ops s1)" using wf1 by (rule wf_run)
  have snd2: "sound U (run ops s1)" using wf1 snd1 by (rule sound_run)
  have row: "map_of (user_progress (run ops s1)) (U, T) \<noteq> Some True"
    using other_row_run [OF assms(4), of s1] table assms(2) by simp
  have "map_of (heap s2 r) T \<noteq> Some True" if "res = Inr r" for r
    using getUserProgress_reads_table [OF wf2 snd2, of oc r s2 T True] assms(5) that row
    by blast
  with err cache table show ?thesis by blast
qed

theorem C1_failed_write_not_reported_witness:
  "wf_state (init_state [((7, 2), True)])
   \<and> map_of (user_progress (init_state [((7, 2), True)])) (7, 1) \<noteq> Some True
   \<and> RecordSolved StoreOk 7 1 \<notin> set [GetProgress ReadOk 8]
   \<and> fst (saveUserProgress StoreFail 7 1 True (init_state [((7, 2), True)]))
       = Some StoreUnavailable
   \<and> fst (getUserProgress ReadOk 7
             (run [GetProgress ReadOk 8]
                (snd (saveUserProgress StoreFail 7 1 True (init_state [((7, 2), True)])))))
       = Inr 1
   \<and> map_of (heap (snd (getUserProgress ReadOk 7
                 (run [GetProgress ReadOk 8]
                    (snd (saveUserProgress StoreFail 7 1 True (init_state [((7, 2), True)]))))))
               1) 1 \<noteq> Some True"
proof -
  let ?s = "init_state [((7, 2), True)]"
  let ?sv = "saveUserProgress StoreFail 7 1 True ?s"
  let ?ops = "[GetProgress ReadOk 8]"
  let ?g = "getUserProgress ReadOk 7 (run ?ops (snd ?sv))"
  have h1: "wf_state ?s"
    by (simp add: wf_state_def pk_ok_def refs_ok_def init_state_def)
  have h2: "map_of (user_progress ?s) (7, 1) \<noteq> Some True"
    by (simp add: init_state_def)
  have h3: "?sv = (fst ?sv, snd ?sv)" by simp
  have h4: "RecordSolved StoreOk 7 1 \<notin> set ?ops" by simp
  have h5: "?g = (fst ?g, snd ?g)" by simp
  have res: "fst ?g = Inr 1"
    by (simp add: run_def saveUserProgress_fail getUserProgress_def delivered_def init_state_def)
  from C1_failed_write_not_reported [OF h1 h2 h3 h4 h5] res
  have "fst ?sv = Some StoreUnavailable" and "map_of (heap (snd ?g) 1) 1 \<noteq> Some True"
    by simp_all
  with h1 h2 h4 res show ?thesis by simp
qed

text \<open>
  C2.  The code at the failing input, in \<^verbatim>\<open>main.go\<close>.  User 7 solves task 1 and the write
  succeeds; a read returns the map with task 1 solved.  Then user 7 solves task 2, which
  removes the map from the cache, and during the next read \<^verbatim>\<open>rows.Next()\<close> gives up before
  the first row (the connection breaks or the 3 s deadline passes).  \<^verbatim>\<open>getUserProgress\<close> does
  not call \<^verbatim>\<open>rows.Err()\<close>: it returns the empty map with a \<^verbatim>\<open>nil\<close> error and stores it in the
  cache.  Task 1 is now absent from what \<^verbatim>\<open>getUserProgress(7)\<close> reports, in this call and in
  every later one that finds the map in the cache, although the table still holds the row;
  the \<^verbatim>\<open>task\<close> command presents task 1 again.
\<close>

theorem C2_regression_after_cut_read:
  "fst (getUserProgress ReadOk 7 (run [RecordSolved StoreOk 7 1] (init_state []))) = Inr 0
   \<and> map_of (heap (snd (getUserProgress ReadOk 7
                 (run [RecordSolved StoreOk 7 1] (init_state [])))) 0) 1 = Some True
   \<and> getUserProgress (ReadCut 0) 7
         (run [RecordSolved StoreOk 7 1, GetProgress ReadOk 7, RecordSolved StoreOk 7 2]
            (init_state []))
       = (Inr 1,
          run [RecordSolved StoreOk 7 1, GetProgress ReadOk 7, RecordSolved StoreOk 7 2,
               GetProgress (ReadCut 0) 7] (init_state []))
   \<and> heap (run [RecordSolved StoreOk 7 1, GetProgress ReadOk 7, RecordSolved StoreOk 7 2,
                 GetProgress (ReadCut 0) 7] (init_state [])) 1 = []
   \<and> fst (getUserProgress ReadOk 7
             (run [RecordSolved StoreOk 7 1, GetProgress ReadOk 7, RecordSolved StoreOk 7 2,
                   GetProgress (ReadCut 0) 7] (init_state []))) = Inr 1
   \<and> map_of (user_progress
               (run [RecordSolved StoreOk 7 1, GetProgress ReadOk 7, RecordSolved StoreOk 7 2,
                     GetProgress (ReadCut 0) 7] (init_state []))) (7, 1) = Some True
   \<and> fst (handleCommand ReadOk ''task'' 7
             (run [RecordSolved StoreOk 7 1, GetProgress ReadOk 7, RecordSolved StoreOk 7 2,
                   GetProgress (ReadCut 0) 7] (init_state []))) = sendTask 7 (getTasks ! 0)
   \<and> ID (getTasks ! 0) = 1"
proof -
  let ?a = "run [RecordSolved StoreOk 7 1] (init_state [])"
  let ?b = "run [RecordSolved StoreOk 7 1, GetProgress ReadOk 7, RecordSolved StoreOk 7 2]
              (init_state [])"
  let ?c = "run [RecordSolved StoreOk 7 1, GetProgress ReadOk 7, RecordSolved StoreOk 7 2,
                 GetProgress (ReadCut 0) 7] (init_state [])"
  have a: "progressCache ?a 7 = None" "nextRef ?a = 0" "user_progress ?a = [((7, 1), True)]"
    by (simp_all add: run_def saveUserProgress_ok init_state_def)
  have 1: "fst (getUserProgress ReadOk 7 ?a) = Inr 0"
    and 2: "map_of (heap (snd (getUserProgress ReadOk 7 ?a)) 0) 1 = Some True"
    by (simp_all add: getUserProgress_miss_ok [OF a(1)] a select_rows_def)
  have b: "progressCache ?b 7 = None" "nextRef ?b = 1"
    "user_progress ?b = [((7, 1), True), ((7, 2), True)]"
    by (simp_all add: run_def saveUserProgress_ok getUserProgress_def delivered_def
        init_state_def)
  have c: "?c = snd (getUserProgress (ReadCut 0) 7 ?b)"
    by (simp add: run_def)
  have 3: "getUserProgress (ReadCut 0) 7 ?b = (Inr 1, ?c)"
    unfolding c by (simp add: getUserProgress_miss_cut [OF b(1)] b)
  have cut: "progressCache ?c 7 = Some 1" "heap ?c 1 = []"
    "user_progress ?c = [((7, 1), True), ((7, 2), True)]"
    unfolding c by (simp_all add: getUserProgress_miss_cut [OF b(1)] b)
  have 5: "fst (getUserProgress ReadOk 7 ?c) = Inr 1"
    by (simp add: getUserProgress_hit [OF cut(1)])
  have 6: "map_of (user_progress ?c) (7, 1) = Some True"
    by (simp add: cut(3))
  have cut': "heap ?c (Suc 0) = []" using cut(2) by simp
  have "firstUnsolved getTasks [] = Some (getTasks ! 0)"
    by (simp add: getTasks_def)
  then have 7: "fst (handleCommand ReadOk ''task'' 7 ?c) = sendTask 7 (getTasks ! 0)"
    by (simp add: handleCommand_def handleTaskCommand_def getNextTask_def
        getUserProgress_hit [OF cut(1)] cut')
  have 8: "ID (getTasks ! 0) = 1" by (simp add: getTasks_def)
  from 1 2 3 cut(2) 5 6 7 8 show ?thesis by blast
qed

text \<open>
  C3.  The loop of \<^verbatim>\<open>getNextTask\<close> returns the first task, in the order of the catalog, whose
  id has no entry in the progress map or the entry false, and returns nothing exactly when
  every task of the catalog has the entry true.  Its result depends on the map only through
  the ids of the catalog, so entries under other ids are ignored.  \<^verbatim>\<open>getNextTask\<close> applies the
  loop to the catalog \<^verbatim>\<open>getTasks()\<close> and to the map that \<^verbatim>\<open>getUserProgress\<close> returned.
\<close>

theorem C3_next_task:
  "(firstUnsolved tasks p = None \<longleftrightarrow> (\<forall>t\<in>set tasks. map_of p (ID t) = Some True))
   \<and> (firstUnsolved tasks p = Some t \<longleftrightarrow>
        (\<exists>i<length tasks. tasks ! i = t \<and> map_of p (ID t) \<noteq> Some True
           \<and> (\<forall>j<i. map_of p (ID (tasks ! j)) = Some True)))
   \<and> ((\<forall>t\<in>set tasks. map_of p' (ID t) = map_of p (ID t))
        \<longrightarrow> firstUnsolved tasks p' = firstUnsolved tasks p)
   \<and> (getUserProgress oc U s = (Inr r, s')
        \<longrightarrow> getNextTask oc U s = (firstUnsolved getTasks (heap s' r), s'))
   \<and> (getUserProgress_mem U m = (r_mem, m')
        \<longrightarrow> getNextTask_mem U m = (firstUnsolved getTasks (heap m' r_mem), m'))"
proof (intro conjI impI)
  show "firstUnsolved tasks p = None \<longleftrightarrow> (\<forall>t\<in>set tasks. map_of p (ID t) = Some True)"
    by (rule firstUnsolved_None)
  show "firstUnsolved tasks p = Some t \<longleftrightarrow>
        (\<exists>i<length tasks. tasks ! i = t \<and> map_of p (ID t) \<noteq> Some True
           \<and> (\<forall>j<i. map_of p (ID (tasks ! j)) = Some True))"
    by (rule firstUnsolved_Some)
  show "firstUnsolved tasks p' = firstUnsolved tasks p"
    if "\<forall>t\<in>set tasks. map_of p' (ID t) = map_of p (ID t)"
    using that by (rule firstUnsolved_cong)
  show "getNextTask oc U s = (firstUnsolved getTasks (heap s' r), s')"
    if "getUserProgress oc U s = (Inr r, s')"
    using that by (rule getNextTask_ok)
  show "getNextTask_mem U m = (firstUnsolved getTasks (heap m' r_mem), m')"
    if "getUserProgress_mem U m = (r_mem, m')"
    using that by (rule getNextTask_mem_eq)
qed

theorem C3_next_task_witness:
  "firstUnsolved getTasks [(1, True), (9, False)] = firstUnsolved getTasks [(1, True)]
   \<and> firstUnsolved getTasks [(1, True)] = Some (getTasks ! 1)
   \<and> ID (getTasks ! 1) = 2
   \<and> fst (getNextTask ReadOk 7 (init_state [((7, 1), True), ((7, 9), False)]))
       = Some (getTasks ! 1)
   \<and> fst (getNextTask ReadOk 7
             (init_state [((7, 1), True), ((7, 2), True), ((7, 3), True), ((7, 4), True),
                          ((7, 5), True)])) = None"
proof -
  let ?p = "[(1, True)] :: progress"
  let ?p' = "[(1, True), (9, False)] :: progress"
  let ?t = "getTasks ! 1"
  let ?s = "init_state [((7, 1), True), ((7, 9), False)]"
  let ?all = "init_state [((7, 1), True), ((7, 2), True), ((7, 3), True), ((7, 4), True),
                          ((7, 5), True)]"
  note C3 = C3_next_task [where tasks = getTasks and p = ?p and t = ?t and p' = ?p'
      and oc = ReadOk and U = 7 and s = ?s and r = 0
      and s' = "snd (getUserProgress ReadOk 7 ?s)" and m = init_state_mem]
  have same: "\<forall>t\<in>set getTasks. map_of ?p' (ID t) = map_of ?p (ID t)"
    by (simp add: getTasks_def)
  with C3 have eq: "firstUnsolved getTasks ?p' = firstUnsolved getTasks ?p"
    by blast
  have "\<exists>i<length getTasks. getTasks ! i = ?t \<and> map_of ?p (ID ?t) \<noteq> Some True
          \<and> (\<forall>j<i. map_of ?p (ID (getTasks ! j)) = Some True)"
    by (rule exI [of _ 1]) (simp add: getTasks_def)
  with C3 have first: "firstUnsolved getTasks ?p = Some ?t"
    by blast
  have id: "ID ?t = 2" by (simp add: getTasks_def)
  have "getUserProgress ReadOk 7 ?s = (Inr 0, snd (getUserProgress ReadOk 7 ?s))"
    by (simp add: getUserProgress_def delivered_def init_state_def)
  with C3 have "getNextTask ReadOk 7 ?s
                  = (firstUnsolved getTasks (heap (snd (getUserProgress ReadOk 7 ?s)) 0),
                     snd (getUserProgress ReadOk 7 ?s))"
    by blast
  moreover have "heap (snd (getUserProgress ReadOk 7 ?s)) 0 = ?p'"
    by (simp add: getUserProgress_def delivered_def init_state_def select_rows_def)
  ultimately have nxt: "fst (getNextTask ReadOk 7 ?s) = Some ?t"
    using eq first by simp
  have "heap (snd (getUserProgress ReadOk 7 ?all)) 0
          = [(1, True), (2, True), (3, True), (4, True), (5, True)]"
    by (simp add: getUserProgress_def delivered_def init_state_def select_rows_def)
  moreover have "getUserProgress ReadOk 7 ?all = (Inr 0, snd (getUserProgress ReadOk 7 ?all))"
    by (simp add: getUserProgress_def delivered_def init_state_def)
  moreover have "\<forall>t\<in>set getTasks.
      map_of [(1, True), (2, True), (3, True), (4, True), (5, True)] (ID t) = Some True"
    by (simp add: getTasks_def)
  ultimately have none: "fst (getNextTask ReadOk 7 ?all) = None"
    using C3_next_task [where tasks = getTasks
        and p = "[(1, True), (2, True), (3, True), (4, True), (5, True)]"
        and oc = ReadOk and U = 7 and s = ?all and r = 0
        and s' = "snd (getUserProgress ReadOk 7 ?all)" and m = init_state_mem]
    by simp
  from eq first id nxt none show ?thesis by blast
qed



text \<open>
  C5.  For a task of the catalog and a submitted answer \<open>a\<close>, \<^verbatim>\<open>handleCallbackQuery\<close> replies
  with the text for a correct answer exactly when \<open>a\<close> is the same string as the task's
  \<^verbatim>\<open>Answer\<close>, and with the text for a wrong answer otherwise; a wrong answer changes nothing
  in the state.  For task 2, whose answer is \<^verbatim>\<open>int\<close>, the answers \<^verbatim>\<open>Int\<close> and \<^verbatim>\<open> int\<close> are
  wrong.  The same holds in both files.
\<close>

theorem C5_strict_evaluation:
  assumes "task \<in> set getTasks"
  shows "(hd (fst (handleCallbackQuery oc oc'
                     \<lparr>QueryID = q, FromID = u, Data = callbackData (ID task) a\<rparr> s))
            = AnswerCallback q msg_correct \<longleftrightarrow> a = Answer task)
         \<and> (hd (fst (handleCallbackQuery oc oc'
                     \<lparr>QueryID = q, FromID = u, Data = callbackData (ID task) a\<rparr> s))
            = AnswerCallback q msg_incorrect \<longleftrightarrow> a \<noteq> Answer task)
         \<and> (a \<noteq> Answer task \<longrightarrow>
              handleCallbackQuery oc oc'
                \<lparr>QueryID = q, FromID = u, Data = callbackData (ID task) a\<rparr> s
              = ([AnswerCallback q msg_incorrect], s))
         \<and> (hd (fst (handleCallbackQuery_mem
                     \<lparr>QueryID = q, FromID = u, Data = callbackData (ID task) a\<rparr> m))
            = AnswerCallback q msg_correct \<longleftrightarrow> a = Answer task)
         \<and> (a \<noteq> Answer task \<longrightarrow>
              handleCallbackQuery_mem
                \<lparr>QueryID = q, FromID = u, Data = callbackData (ID task) a\<rparr> m
              = ([AnswerCallback q msg_incorrect], m))
         \<and> handleCallbackQuery oc oc' \<lparr>QueryID = q, FromID = u, Data = ''2:Int''\<rparr> s
            = ([AnswerCallback q msg_incorrect], s)
         \<and> handleCallbackQuery oc oc' \<lparr>QueryID = q, FromID = u, Data = ''2: int''\<rparr> s
            = ([AnswerCallback q msg_incorrect], s)"
proof -
  note reply = handleCallbackQuery_reply [OF assms, of oc oc' q u a s]
  note reply_mem = handleCallbackQuery_mem_reply [OF assms, of q u a m]
  have 1: "hd (fst (handleCallbackQuery oc oc'
                     \<lparr>QueryID = q, FromID = u, Data = callbackData (ID task) a\<rparr> s))
            = AnswerCallback q msg_correct \<longleftrightarrow> a = Answer task"
    unfolding reply using msg_correct_neq_incorrect by auto
  have 2: "hd (fst (handleCallbackQuery oc oc'
                     \<lparr>QueryID = q, FromID = u, Data = callbackData (ID task) a\<rparr> s))
            = AnswerCallback q msg_incorrect \<longleftrightarrow> a \<noteq> Answer task"
    unfolding reply using msg_correct_neq_incorrect by auto
  have 3: "a \<noteq> Answer task \<longrightarrow>
              handleCallbackQuery oc oc'
                \<lparr>QueryID = q, FromID = u, Data = callbackData (ID task) a\<rparr> s
              = ([AnswerCallback q msg_incorrect], s)"
    using handleCallbackQuery_incorrect [OF assms] by blast
  have 4: "hd (fst (handleCallbackQuery_mem
                     \<lparr>QueryID = q, FromID = u, Data = callbackData (ID task) a\<rparr> m))
            = AnswerCallback q msg_correct \<longleftrightarrow> a = Answer task"
    unfolding reply_mem using msg_correct_neq_incorrect by auto
  have 5: "a \<noteq> Answer task \<longrightarrow>
              handleCallbackQuery_mem
                \<lparr>QueryID = q, FromID = u, Data = callbackData (ID task) a\<rparr> m
              = ([AnswerCallback q msg_incorrect], m)"
    using handleCallbackQuery_mem_incorrect [OF assms] by blast
  have 6: "handleCallbackQuery oc oc' \<lparr>QueryID = q, FromID = u, Data = ''2:Int''\<rparr> s
            = ([AnswerCallback q msg_incorrect], s)"
    using handleCallbackQuery_incorrect [OF task2_in_catalog, of "''Int''" oc oc' q u s]
    by (simp add: callbackData_2)
  have 7: "handleCallbackQuery oc oc' \<lparr>QueryID = q, FromID = u, Data = ''2: int''\<rparr> s
            = ([AnswerCallback q msg_incorrect], s)"
    using handleCallbackQuery_incorrect [OF task2_in_catalog, of "'' int''" oc oc' q u s]
    by (simp add: callbackData_2)
  from 1 2 3 4 5 6 7 show ?thesis by blast
qed

theorem C5_strict_evaluation_witness:
  "getTasks ! 1 \<in> set getTasks \<and> Answer (getTasks ! 1) = ''int''
   \<and> callbackData (ID (getTasks ! 1)) ''int'' = ''2:int''
   \<and> hd (fst (handleCallbackQuery StoreOk ReadOk
                 \<lparr>QueryID = ''q'', FromID = 7, Data = callbackData (ID (getTasks ! 1)) ''int''\<rparr>
                 (init_state []))) = AnswerCallback ''q'' msg_correct
   \<and> hd (fst (handleCallbackQuery StoreOk ReadOk
                 \<lparr>QueryID = ''q'', FromID = 7, Data = callbackData (ID (getTasks ! 1)) ''INT''\<rparr>
                 (init_state []))) \<noteq> AnswerCallback ''q'' msg_correct"
proof -
  have h: "getTasks ! 1 \<in> set getTasks" by (simp add: getTasks_def)
  have a: "Answer (getTasks ! 1) = ''int''" by (simp add: getTasks_def)
  have d: "callbackData (ID (getTasks ! 1)) ''int'' = ''2:int''"
    by (simp add: getTasks_def callbackData_2)
  have eq: "''int'' = Answer (getTasks ! 1)" and ne: "''INT'' \<noteq> Answer (getTasks ! 1)"
    unfolding a by simp_all
  from C5_strict_evaluation [OF h, where a = "''int''" and oc = StoreOk and oc' = ReadOk
      and q = "''q''" and u = 7 and s = "init_state []" and m = init_state_mem] eq
  have c: "hd (fst (handleCallbackQuery StoreOk ReadOk
                 \<lparr>QueryID = ''q'', FromID = 7, Data = callbackData (ID (getTasks ! 1)) ''int''\<rparr>
                 (init_state []))) = AnswerCallback ''q'' msg_correct"
    by blast
  from C5_strict_evaluation [OF h, where a = "''INT''" and oc = StoreOk and oc' = ReadOk
      and q = "''q''" and u = 7 and s = "init_state []" and m = init_state_mem] ne
  have w: "hd (fst (handleCallbackQuery StoreOk ReadOk
                 \<lparr>QueryID = ''q'', FromID = 7, Data = callbackData (ID (getTasks ! 1)) ''INT''\<rparr>
                 (init_state []))) \<noteq> AnswerCallback ''q'' msg_correct"
    by blast
  from h a d c w show ?thesis by blast
qed

text \<open>
  C6.  The code at the failing input.  User 7 has solved task 1 only, nothing is cached, and
  the read of the table fails during the \<^verbatim>\<open>task\<close> command.  \<^verbatim>\<open>getNextTask\<close> returns \<^verbatim>\<open>nil\<close> for
  the failed read as it does when every task is solved, and \<^verbatim>\<open>handleTaskCommand\<close> sends the
  message that all tasks are solved.  With the read carried out the same command sends
  task 2, and \<^verbatim>\<open>showProgress\<close> answers the same failure with its error message.
\<close>

theorem C6_task_command_on_read_failure:
  "handleCommand ReadFail ''task'' 7 (init_state [((7, 1), True)])
     = ([SendMessage 7 msg_all_solved], init_state [((7, 1), True)])
   \<and> msg_all_solved \<noteq> msg_progress_error
   \<and> fst (handleCommand ReadOk ''task'' 7 (init_state [((7, 1), True)]))
     = sendTask 7 (getTasks ! 1)
   \<and> handleCommand ReadFail ''progress'' 7 (init_state [((7, 1), True)])
     = ([SendMessage 7 msg_progress_error], init_state [((7, 1), True)])"
proof -
  let ?s = "init_state [((7, 1), True)]"
  have miss: "progressCache ?s 7 = None" by (simp add: init_state_def)
  have 1: "handleCommand ReadFail ''task'' 7 ?s = ([SendMessage 7 msg_all_solved], ?s)"
    by (simp add: handleCommand_def handleTaskCommand_read_failure [OF miss])
  have 2: "handleCommand ReadFail ''progress'' 7 ?s = ([SendMessage 7 msg_progress_error], ?s)"
    by (simp add: handleCommand_def showProgress_read_failure [OF miss])
  have "firstUnsolved getTasks [(1, True)] = Some (getTasks ! 1)"
    by (simp add: getTasks_def)
  then have 3: "fst (handleCommand ReadOk ''task'' 7 ?s) = sendTask 7 (getTasks ! 1)"
    by (simp add: handleCommand_def handleTaskCommand_def getNextTask_def
        getUserProgress_miss_ok [OF miss])
      (simp add: init_state_def select_rows_def)
  from 1 2 3 msg_all_solved_neq_error show ?thesis by blast
qed

text \<open>
  C7.  The claim fails: \<^verbatim>\<open>progressCache.Delete(userID)\<close> is executed whatever the \<^verbatim>\<open>INSERT\<close>
  returned.  User 7 has a cached map (stored by an earlier read); the failing
  \<^verbatim>\<open>saveUserProgress\<close> returns the error and the cache entry of user 7 is gone.
\<close>

theorem C7_cache_entry_deleted_counterexample:
  "progressCache (snd (getUserProgress ReadOk 7 (init_state []))) 7 = Some 0
   \<and> fst (saveUserProgress StoreFail 7 1 True (snd (getUserProgress ReadOk 7 (init_state []))))
     = Some StoreUnavailable
   \<and> progressCache
       (snd (saveUserProgress StoreFail 7 1 True (snd (getUserProgress ReadOk 7 (init_state [])))))
       7 = None"
  by (simp add: saveUserProgress_fail getUserProgress_def delivered_def init_state_def)

text \<open>
  C7, amended.  When the \<^verbatim>\<open>INSERT\<close> of \<^verbatim>\<open>saveUserProgress\<close> fails, the call returns the error.
  Whatever the statement returned, the cache changes in exactly one way: the entry of this
  user is deleted.  No entry is stored or updated, the entries of all other users are as
  before, and no cached map is written to.
\<close>

theorem C7_failed_write_invalidates_only:
  "fst (saveUserProgress StoreFail U T solved s) = Some StoreUnavailable
   \<and> progressCache (snd (saveUserProgress oc U T solved s)) = (progressCache s)(U := None)
   \<and> heap (snd (saveUserProgress oc U T solved s)) = heap s
   \<and> nextRef (snd (saveUserProgress oc U T solved s)) = nextRef s"
  by (simp add: saveUserProgress_fail cache_saveUserProgress heap_saveUserProgress)

theorem C7_failed_write_invalidates_only_witness:
  "progressCache (run [GetProgress ReadOk 7, GetProgress ReadOk 8] (init_state [((7, 2), True)])) 7
     = Some 0
   \<and> progressCache (run [GetProgress ReadOk 7, GetProgress ReadOk 8] (init_state [((7, 2), True)])) 8
     = Some 1
   \<and> heap (run [GetProgress ReadOk 7, GetProgress ReadOk 8] (init_state [((7, 2), True)])) 0
     = [(2, True)]
   \<and> fst (saveUserProgress StoreFail 7 1 True
            (run [GetProgress ReadOk 7, GetProgress ReadOk 8] (init_state [((7, 2), True)])))
     = Some StoreUnavailable
   \<and> progressCache (snd (saveUserProgress StoreFail 7 1 True
            (run [GetProgress ReadOk 7, GetProgress ReadOk 8] (init_state [((7, 2), True)])))) 7
     = None
   \<and> progressCache (snd (saveUserProgress StoreFail 7 1 True
            (run [GetProgress ReadOk 7, GetProgress ReadOk 8] (init_state [((7, 2), True)])))) 8
     = Some 1
   \<and> heap (snd (saveUserProgress StoreFail 7 1 True
            (run [GetProgress ReadOk 7, GetProgress ReadOk 8] (init_state [((7, 2), True)])))) 0
     = [(2, True)]"
proof -
  let ?s = "run [GetProgress ReadOk 7, GetProgress ReadOk 8] (init_state [((7, 2), True)])"
  have before: "progressCache ?s 7 = Some 0" "progressCache ?s 8 = Some 1"
    "heap ?s 0 = [(2, True)]"
    by (simp_all add: run_def getUserProgress_def delivered_def init_state_def select_rows_def)
  note C7 = C7_failed_write_invalidates_only [of 7 1 True ?s StoreFail]
  from C7 have err: "fst (saveUserProgress StoreFail 7 1 True ?s) = Some StoreUnavailable"
    by blast
  from C7 have "progressCache (snd (saveUserProgress StoreFail 7 1 True ?s))
                  = (progressCache ?s)(7 := None)"
    by blast
  then have after: "progressCache (snd (saveUserProgress StoreFail 7 1 True ?s)) 7 = None"
    "progressCache (snd (saveUserProgress StoreFail 7 1 True ?s)) 8 = Some 1"
    using before(2) by simp_all
  from C7 before(3) have maps: "heap (snd (saveUserProgress StoreFail 7 1 True ?s)) 0 = [(2, True)]"
    by simp
  from before err after maps show ?thesis by blast
qed

text \<open>
  C8.  The claim fails in the file without a database: \<^verbatim>\<open>getUserProgress\<close> returns the map
  held by the cache, and \<^verbatim>\<open>saveUserProgress\<close> writes into that map.  The map that user 7 got
  is empty; after \<^verbatim>\<open>saveUserProgress(7, 1, true)\<close> the same map holds task 1 as solved.
\<close>

theorem C8_snapshot_is_live_counterexample:
  "heap (snd (getUserProgress_mem 7 init_state_mem)) (fst (getUserProgress_mem 7 init_state_mem))
     = []
   \<and> heap (snd (saveUserProgress_mem 7 1 True (snd (getUserProgress_mem 7 init_state_mem))))
        (fst (getUserProgress_mem 7 init_state_mem))
     = [(1, True)]"
  by (simp add: saveUserProgress_mem_def getUserProgress_mem_def init_state_mem_def)

text \<open>
  C8, amended.  In \<^verbatim>\<open>main.go\<close> a map returned by \<^verbatim>\<open>getUserProgress\<close> is never written to
  afterwards: whatever calls follow, also \<^verbatim>\<open>saveUserProgress\<close> for the same user, it has the
  content it had when it was returned.  In the file without a database the returned map is
  the cached map itself: a later \<^verbatim>\<open>saveUserProgress(U, T, true)\<close> sets \<open>T\<close> to true in it and
  leaves its other entries as they were.
\<close>

theorem C8_snapshot_after_later_writes:
  assumes "refs_ok s"
    and "getUserProgress oc U s = (Inr r, s1)"
    and "getUserProgress_mem U m = (r_mem, m1)"
  shows "heap (run ops s1) r = heap s1 r
         \<and> heap (snd (saveUserProgress_mem U T True m1)) r_mem
           = AList.update T True (heap m1 r_mem)"
proof -
  from assms(1,2) have "r < nextRef s1" by (rule getUserProgress_ref_allocated)
  then have 1: "heap (run ops s1) r = heap s1 r" using heap_run by blast
  from assms(3) have "progressCache m1 U = Some r_mem" by (rule getUserProgress_mem_cached)
  then have 2: "heap (snd (saveUserProgress_mem U T True m1)) r_mem
                  = AList.update T True (heap m1 r_mem)"
    by (simp add: saveUserProgress_mem_hit)
  from 1 2 show ?thesis by blast
qed

theorem C8_snapshot_after_later_writes_witness:
  "refs_ok (init_state [((7, 2), True)])
   \<and> fst (getUserProgress ReadOk 7 (init_state [((7, 2), True)])) = Inr 0
   \<and> heap (snd (getUserProgress ReadOk 7 (init_state [((7, 2), True)]))) 0 = [(2, True)]
   \<and> heap (run [RecordSolved StoreOk 7 1, GetProgress ReadOk 7]
              (snd (getUserProgress ReadOk 7 (init_state [((7, 2), True)])))) 0 = [(2, True)]
   \<and> heap (run [RecordSolved StoreOk 7 1, GetProgress ReadOk 7]
              (snd (getUserProgress ReadOk 7 (init_state [((7, 2), True)])))) 1
       = [(2, True), (1, True)]"
proof -
  let ?s = "init_state [((7, 2), True)]"
  let ?g = "getUserProgress ReadOk 7 ?s"
  let ?ops = "[RecordSolved StoreOk 7 1, GetProgress ReadOk 7]"
  let ?gm = "getUserProgress_mem 7 init_state_mem"
  have h1: "refs_ok ?s" by (simp add: refs_ok_def init_state_def)
  have res: "fst ?g = Inr 0" by (simp add: getUserProgress_def delivered_def init_state_def)
  then have h2: "?g = (Inr 0, snd ?g)" by (metis prod.collapse)
  have h3: "?gm = (fst ?gm, snd ?gm)" by simp
  have before: "heap (snd ?g) 0 = [(2, True)]"
    by (simp add: getUserProgress_def delivered_def init_state_def select_rows_def)
  from C8_snapshot_after_later_writes [OF h1 h2 h3, of ?ops] before
  have after: "heap (run ?ops (snd ?g)) 0 = [(2, True)]" by simp
  have fresh: "heap (run ?ops (snd ?g)) 1 = [(2, True), (1, True)]"
    by (simp add: run_def saveUserProgress_ok getUserProgress_def delivered_def init_state_def select_rows_def)
  from h1 res before after fresh show ?thesis by blast
qed

text \<open>
  C9.  When the progress could be read, \<^verbatim>\<open>showProgress\<close> sends one message: the fixed
  Russian text with the number of entries of the user's map that are true, a slash, the
  number of tasks of the catalog (5), and the percentage \<open>solved / total * 100\<close> printed with
  one digit after the point (the digits of \<open>20 * solved\<close>, a point and a zero), followed by
  a percent sign.  The \<^verbatim>\<open>float64\<close> computation of the
  source prints the same digits as the exact quotient; this is proved for maps with up to
  \<open>2\<^sup>4\<^sup>0\<close> solved entries.  The same holds in both files.
\<close>

theorem C9_progress_report:
  assumes "getUserProgress oc U s = (Inr r, s')"
    and "length (filter snd (heap s' r)) \<le> 2 ^ 40"
    and "getUserProgress_mem U m = (r_mem, m')"
    and "length (filter snd (heap m' r_mem)) \<le> 2 ^ 40"
  shows "showProgress oc U s
           = ([SendMessage U
                 (progress_head @ fmt_d (int (length (filter snd (heap s' r)))) @ ''/''
                    @ fmt_d (int (length getTasks)) @ progress_mid
                    @ spec_percentage (length (filter snd (heap s' r))) (length getTasks)
                    @ ''%'')], s')
         \<and> showProgress_mem U m
           = ([SendMessage U
                 (progress_head @ fmt_d (int (length (filter snd (heap m' r_mem)))) @ ''/''
                    @ fmt_d (int (length getTasks)) @ progress_mid
                    @ spec_percentage (length (filter snd (heap m' r_mem))) (length getTasks)
                    @ ''%'')], m')
         \<and> fmt_d (int (length getTasks)) = ''5''
         \<and> spec_percentage (length (filter snd (heap s' r))) (length getTasks)
           = digits (20 * length (filter snd (heap s' r))) @ ''.0''"
proof -
  have len: "length getTasks = 5" by (simp add: getTasks_def)
  have pct: "fmt_f1 (percentage k 5) = spec_percentage k 5" if "k \<le> 2 ^ 40" for k
    using percentage_rendered [OF that] by (simp add: spec_percentage_5)
  have 1: "showProgress oc U s
           = ([SendMessage U
                 (progress_head @ fmt_d (int (length (filter snd (heap s' r)))) @ ''/''
                    @ fmt_d (int (length getTasks)) @ progress_mid
                    @ spec_percentage (length (filter snd (heap s' r))) (length getTasks)
                    @ ''%'')], s')"
    unfolding len using assms(1) pct [OF assms(2)]
    by (simp add: showProgress_def progressText_def count_solved_eq len Let_def)
  have 2: "showProgress_mem U m
           = ([SendMessage U
                 (progress_head @ fmt_d (int (length (filter snd (heap m' r_mem)))) @ ''/''
                    @ fmt_d (int (length getTasks)) @ progress_mid
                    @ spec_percentage (length (filter snd (heap m' r_mem))) (length getTasks)
                    @ ''%'')], m')"
    unfolding len using assms(3) pct [OF assms(4)]
    by (simp add: showProgress_mem_def progressText_def count_solved_eq len Let_def)
  have 3: "fmt_d (int (length getTasks)) = ''5''"
    unfolding len by (simp add: fmt_d_def digits.simps digit_char_values)
  have 4: "spec_percentage (length (filter snd (heap s' r))) (length getTasks)
           = digits (20 * length (filter snd (heap s' r))) @ ''.0''"
    unfolding len by (rule spec_percentage_5)
  from 1 2 3 4 show ?thesis by blast
qed

theorem C9_progress_report_witness:
  "fst (getUserProgress ReadOk 7 (init_state [((7, 1), True), ((7, 2), False)])) = Inr 0
   \<and> heap (snd (getUserProgress ReadOk 7 (init_state [((7, 1), True), ((7, 2), False)]))) 0
       = [(1, True), (2, False)]
   \<and> fst (showProgress ReadOk 7 (init_state [((7, 1), True), ((7, 2), False)]))
       = [SendMessage 7 (progress_head @ ''1/5'' @ progress_mid @ ''20.0%'')]
   \<and> fst (showProgress_mem 7 init_state_mem)
       = [SendMessage 7 (progress_head @ ''0/5'' @ progress_mid @ ''0.0%'')]"
proof -
  let ?s = "init_state [((7, 1), True), ((7, 2), False)]"
  let ?g = "getUserProgress ReadOk 7 ?s"
  let ?gm = "getUserProgress_mem 7 init_state_mem"
  have res: "fst ?g = Inr 0" by (simp add: getUserProgress_def delivered_def init_state_def)
  then have h1: "?g = (Inr 0, snd ?g)" by (metis prod.collapse)
  have snap: "heap (snd ?g) 0 = [(1, True), (2, False)]"
    by (simp add: getUserProgress_def delivered_def init_state_def select_rows_def)
  then have h2: "length (filter snd (heap (snd ?g) 0)) \<le> 2 ^ 40" by simp
  have h3: "?gm = (fst ?gm, snd ?gm)" by simp
  have snap_mem: "heap (snd ?gm) (fst ?gm) = []"
    by (simp add: getUserProgress_mem_def init_state_mem_def)
  then have h4: "length (filter snd (heap (snd ?gm) (fst ?gm))) \<le> 2 ^ 40" by simp
  have len: "length getTasks = 5" by (simp add: getTasks_def)
  have d: "fmt_d 1 = ''1''" "fmt_d 0 = ''0''" "fmt_d 5 = ''5''"
    by (simp_all add: fmt_d_def digits.simps digit_char_values)
  have p: "spec_percentage (Suc 0) 5 = ''20.0''" "spec_percentage 0 5 = ''0.0''"
    by (simp_all add: spec_percentage_5 digits.simps digit_char_values)
  from C9_progress_report [OF h1 h2 h3 h4]
  have "fst (showProgress ReadOk 7 ?s)
          = [SendMessage 7 (progress_head @ ''1/5'' @ progress_mid @ ''20.0%'')]"
    and "fst (showProgress_mem 7 init_state_mem)
          = [SendMessage 7 (progress_head @ ''0/5'' @ progress_mid @ ''0.0%'')]"
    by (simp_all add: snap snap_mem len d p)
  with res snap show ?thesis by blast
qed

text \<open>
  C10.  The callback data that \<^verbatim>\<open>sendTask\<close> attaches to a button, the decimal task id, a
  colon and the option, is taken apart by \<^verbatim>\<open>handleCallbackQuery\<close> (split at the first colon,
  \<^verbatim>\<open>Atoi\<close> on the prefix) into the same task id and the whole option, for every task id and
  every option, also one that contains colons.
\<close>

theorem C10_callback_roundtrip: "parseCallback (callbackData n s) = Some (n, s)"
  by (rule parseCallback_callbackData)

theorem C10_callback_roundtrip_witness:
  "parseCallback (callbackData 3 ''a:b::c'') = Some (3, ''a:b::c'')
   \<and> callbackData 3 ''a:b::c'' = ''3:a:b::c''"
proof
  show "parseCallback (callbackData 3 ''a:b::c'') = Some (3, ''a:b::c'')"
    by (rule C10_callback_roundtrip)
  show "callbackData 3 ''a:b::c'' = ''3:a:b::c''"
    by (simp add: callbackData_def fmt_d_def digits.simps digit_char_values)
qed

end
